theory Spec2Isabelle
  imports Main "HOL-Library.Word" "HOL-Library.Multiset"
begin

unbundle bit_operations_syntax

section \<open>Machine words and the bit primitives of the succinct library\<close>

text \<open>
  Keys are \<open>uint64_t\<close>; the packed low entries of the triangle index are \<open>uint32_t\<close>.
  \<open>sdsl::bits::cnt\<close>, \<open>_mm_popcnt_u32\<close> and \<open>_mm_popcnt_u64\<close> all count the one-bits of
  their argument; \<open>sdsl::bits::lo_set[i]\<close> is the word with the \<open>i\<close> low bits set, which is
  \<open>mask i\<close>.
\<close>

type_synonym u64 = "64 word"
type_synonym u32 = "32 word"

definition cnt :: "'a::len word \<Rightarrow> nat" where
  "cnt w = length (filter (bit w) [0..<LENGTH('a)])"

text \<open>
  Sizes and indices are \<open>uint64_t\<close>/\<open>size_t\<close>. They are kept as naturals where they
  index a list; the subtractions and additions of the slice bounds and of the write cursor,
  whose intermediate value can pass below zero, are done on 64-bit words and so wrap around:
  \<open>sub64 a b\<close> is \<open>a - b\<close> and \<open>slice_pos p b\<close> is \<open>p - b + 1\<close>.
\<close>

definition sub64 :: "nat \<Rightarrow> nat \<Rightarrow> nat" where
  "sub64 a b = unat ((word_of_nat a :: u64) - word_of_nat b)"

definition slice_pos :: "nat \<Rightarrow> nat \<Rightarrow> nat" where
  "slice_pos p b = unat ((word_of_nat p :: u64) - word_of_nat b + 1)"

datatype error = OutOfRange

lemma cnt_card: "cnt (w::'a::len word) = card {i. bit w i}"
proof -
  have "{i. bit w i} = set (filter (bit w) [0..<LENGTH('a)])"
    by (auto simp: bit_imp_le_length)
  then have "card {i. bit w i} = card (set (filter (bit w) [0..<LENGTH('a)]))"
    by (rule arg_cong)
  also have "\<dots> = length (filter (bit w) [0..<LENGTH('a)])"
    by (rule distinct_card) simp
  finally show ?thesis
    unfolding cnt_def by simp
qed

lemma finite_bits: "finite {i. bit (w::'a::len word) i}"
proof -
  have "{i. bit w i} \<subseteq> {..<LENGTH('a)}"
    by (auto simp: bit_imp_le_length)
  then show ?thesis
    by (rule finite_subset) simp
qed

lemma cnt_mono: "(\<And>i. bit (a::'a::len word) i \<Longrightarrow> bit (b::'b::len word) (f i)) \<Longrightarrow> inj_on f {i. bit a i}
  \<Longrightarrow> cnt a \<le> cnt b"
proof -
  assume h: "\<And>i. bit a i \<Longrightarrow> bit b (f i)" and inj: "inj_on f {i. bit a i}"
  have "card {i. bit a i} = card (f ` {i. bit a i})"
    using inj by (simp add: card_image)
  also have "\<dots> \<le> card {i. bit b i}"
    by (rule card_mono) (auto simp: finite_bits h)
  finally show ?thesis
    by (simp add: cnt_card)
qed

lemma cnt_xor_le: "cnt (a XOR b) \<le> cnt a + cnt (b::'a::len word)"
proof -
  have "{i. bit (a XOR b) i} \<subseteq> {i. bit a i} \<union> {i. bit b i}"
    by (auto simp: bit_xor_iff)
  then have "card {i. bit (a XOR b) i} \<le> card ({i. bit a i} \<union> {i. bit b i})"
    by (intro card_mono) (auto simp: finite_bits)
  also have "\<dots> \<le> card {i. bit a i} + card {i. bit b i}"
    by (rule card_Un_le)
  finally show ?thesis
    by (simp add: cnt_card)
qed

lemma cnt_disjoint_or:
  assumes "a AND b = (0::'a::len word)"
  shows "cnt (a OR b) = cnt a + cnt b"
proof -
  have disj: "{i. bit a i} \<inter> {i. bit b i} = {}"
  proof -
    have "\<not> (bit a i \<and> bit b i)" for i
      using assms by (metis bit_and_iff bit_0_eq bot_apply bot_bool_def)
    then show ?thesis by auto
  qed
  have "{i. bit (a OR b) i} = {i. bit a i} \<union> {i. bit b i}"
    by (auto simp: bit_or_iff)
  then show ?thesis
    by (simp add: cnt_card card_Un_disjoint finite_bits disj)
qed


section \<open>External collaborators\<close>

subsection \<open>The permutation family\<close>

text \<open>
  \<open>multi_idx/perm.hpp\<close> is not part of the verified sources. What the two indexes use of
  it is taken as a parameter: the forward permutation \<open>mi_permute[t_id]\<close>, its inverse
  \<open>mi_rev_permute[t_id]\<close>, and the sum of the top \<open>match_len\<close> block widths, which both
  classes compute once as the constant \<open>splitter_bits\<close>. \<open>t_k\<close> is the template parameter
  of the same name.
\<close>

record perm_family =
  splitter_bits :: nat
  mi_permute :: "u64 \<Rightarrow> u64"
  mi_rev_permute :: "u64 \<Rightarrow> u64"
  t_k :: nat

text \<open>
  Modelled from the spec: the permutation is a bit permutation of the 64-bit word, with
  \<open>mi_rev_permute\<close> its inverse. A bit permutation commutes with XOR and keeps the number
  of one-bits; these are the only facts about it that the proofs use.
\<close>

definition bit_permutation :: "perm_family \<Rightarrow> bool" where
  "bit_permutation cfg \<longleftrightarrow>
     (\<forall>x. mi_rev_permute cfg (mi_permute cfg x) = x) \<and>
     (\<forall>x y. mi_permute cfg (x XOR y) = mi_permute cfg x XOR mi_permute cfg y) \<and>
     (\<forall>x. cnt (mi_permute cfg x) = cnt x)"

subsection \<open>Bit vector, select support and integer vectors\<close>

text \<open>
  Modelled from the spec: \<open>select_1(i)\<close> is the position of the \<open>i\<close>-th one-bit, counted
  from 1. It is undefined (here \<open>None\<close>) when the vector has fewer than \<open>i\<close> ones, and
  for \<open>i = 0\<close>.
\<close>

fun select_1 :: "bool list \<Rightarrow> nat \<Rightarrow> nat option" where
  "select_1 [] i = None"
| "select_1 (b # bs) i =
     (if b then (if i = 1 then Some 0 else map_option Suc (select_1 bs (i - 1)))
      else map_option Suc (select_1 bs i))"

text \<open>
  A select support holds a pointer to the bit vector it answers for. The pointer is
  modelled by the vector it points to.
\<close>

datatype sel_support = Sel (sel_vector: "bool list")

definition sel_query :: "sel_support \<Rightarrow> nat \<Rightarrow> nat option" where
  "sel_query s i = select_1 (sel_vector s) i"

text \<open>
  A write \<open>m_C[idx] = b\<close>. The vector has a fixed length; a write at an index that is not
  below the length does not change any of its bits.
\<close>

definition bv_store :: "nat \<times> bool \<Rightarrow> bool list \<Rightarrow> bool list" where
  "bv_store w bs = (if fst w < length bs then bs[fst w := snd w] else bs)"

section \<open>The counting-sort builder shared by both indexes\<close>

text \<open>
  Both \<open>build_small_universe\<close> functions run the same four loops. They differ in the
  bucket id and in the payload written by the last loop.

  First loop: \<open>for (auto x : input_entries) prefix_sums[get_bucket_id(x)]++\<close>, with the
  index checked against the size of \<open>prefix_sums\<close>.
\<close>

fun histogram :: "(u64 \<Rightarrow> nat) \<Rightarrow> u64 list \<Rightarrow> nat list \<Rightarrow> error + nat list" where
  "histogram bid [] ps = Inr ps"
| "histogram bid (x # xs) ps =
     (if bid x < length ps then histogram bid xs (ps[bid x := ps ! bid x + 1])
      else Inl OutOfRange)"

text \<open>
  Second loop: for every element \<open>x\<close> of \<open>prefix_sums\<close> (the sentinel included), \<open>x\<close>
  writes of a zero bit and one write of a one bit, at consecutive positions \<open>idx\<close>.
  \<open>C_writes\<close> lists the writes \<open>m_C[idx] = b\<close> in the order the loop performs them.
\<close>

fun C_writes :: "nat list \<Rightarrow> nat \<Rightarrow> (nat \<times> bool) list" where
  "C_writes [] idx = []"
| "C_writes (x # ps) idx =
     map (\<lambda>i. (idx + i, False)) [0..<x] @ [(idx + x, True)] @ C_writes ps (idx + x + 1)"

definition build_C :: "nat list \<Rightarrow> nat \<Rightarrow> bool list" where
  "build_C prefix_sums len = fold bv_store (C_writes prefix_sums 0) (replicate len False)"

text \<open>
  Third loop: \<open>sum = prefix_sums[0]; prefix_sums[0] = 0;\<close> then for \<open>i\<close> from 1,
  \<open>curr = prefix_sums[i]; prefix_sums[i] = sum + i; sum += curr\<close>. The running \<open>sum\<close>
  is the argument \<open>acc\<close>.
\<close>

fun psum_loop :: "nat list \<Rightarrow> nat \<Rightarrow> nat \<Rightarrow> nat list" where
  "psum_loop [] i acc = []"
| "psum_loop (c # rest) i acc = (acc + i) # psum_loop rest (i + 1) (acc + c)"

fun prefix_sums_scan :: "nat list \<Rightarrow> error + nat list" where
  "prefix_sums_scan [] = Inl OutOfRange"
| "prefix_sums_scan (c # rest) = Inr (0 # psum_loop rest 1 c)"

text \<open>
  Fourth loop: each key is written at \<open>prefix_sums[bucket] - bucket\<close> and the cursor of
  its bucket is advanced. Both indices are checked. \<open>pay\<close> is the payload stored for a key.
\<close>

fun place :: "(u64 \<Rightarrow> nat) \<Rightarrow> (u64 \<Rightarrow> 'a) \<Rightarrow> u64 list \<Rightarrow> nat list \<Rightarrow> 'a list
    \<Rightarrow> error + (nat list \<times> 'a list)" where
  "place bid pay [] ps es = Inr (ps, es)"
| "place bid pay (x # xs) ps es =
     (let bucket = bid x in
      if \<not> bucket < length ps then Inl OutOfRange
      else let i = sub64 (ps ! bucket) bucket in
        if \<not> i < length es then Inl OutOfRange
        else place bid pay xs (ps[bucket := ps ! bucket + 1]) (es[i := pay x]))"

section \<open>The simple index\<close>

record simple_index =
  m_n :: nat
  m_entries :: "u64 list"
  m_C :: "bool list"
  m_C_sel :: sel_support

definition get_bucket_id :: "perm_family \<Rightarrow> u64 \<Rightarrow> u64" where
  "get_bucket_id cfg x = drop_bit (64 - splitter_bits cfg) (mi_permute cfg x)"

text \<open>
  \<open>m_entries\<close> is an \<open>int_vector\<close> of width \<open>64 - splitter_bits\<close>: a store keeps the low
  \<open>64 - splitter_bits\<close> bits of the value.
\<close>

definition simple_payload :: "perm_family \<Rightarrow> u64 \<Rightarrow> u64" where
  "simple_payload cfg x = mi_permute cfg x AND mask (64 - splitter_bits cfg)"

definition simple_build :: "perm_family \<Rightarrow> u64 list \<Rightarrow> error + simple_index" where
  "simple_build cfg input_entries =
     (let n = length input_entries;
          splitter_universe = 2 ^ splitter_bits cfg;
          bid = (\<lambda>x. unat (get_bucket_id cfg x))
      in case histogram bid input_entries (replicate (splitter_universe + 1) 0) of
           Inl e \<Rightarrow> Inl e
         | Inr prefix_sums \<Rightarrow>
             let C = build_C prefix_sums (splitter_universe + n)
             in case prefix_sums_scan prefix_sums of
                  Inl e \<Rightarrow> Inl e
                | Inr cursors \<Rightarrow>
                    (case place bid (simple_payload cfg) input_entries cursors (replicate n 0) of
                       Inl e \<Rightarrow> Inl e
                     | Inr (cursors', es) \<Rightarrow>
                         Inr \<lparr>m_n = n, m_entries = es, m_C = C, m_C_sel = Sel C\<rparr>))"

text \<open>
  The bounds \<open>l\<close> and \<open>r\<close> of a slice: \<open>l = bucket == 0 ? 0 : m_C_sel(bucket) - bucket + 1\<close>
  and \<open>r = m_C_sel(bucket+1) - (bucket+1) + 1\<close>, in 64-bit unsigned arithmetic.
\<close>

definition slice_left :: "sel_support \<Rightarrow> nat \<Rightarrow> nat option" where
  "slice_left s bucket =
     (if bucket = 0 then Some 0
      else map_option (\<lambda>p. slice_pos p bucket) (sel_query s bucket))"

definition slice_right :: "sel_support \<Rightarrow> nat \<Rightarrow> nat option" where
  "slice_right s bucket =
     map_option (\<lambda>p. slice_pos p (bucket + 1)) (sel_query s (bucket + 1))"

text \<open>
  \<open>match\<close> has no check of \<open>errors\<close> against \<open>t_k\<close>: the source only carries the comment
  \<open>// assert(k<=t_k)\<close> above the function. \<open>candidates\<close> is \<open>std::distance(begin, end)\<close>
  stored in a \<open>uint64_t\<close>.

  The loop \<open>for (it = begin; it != end; ++it)\<close> of \<open>match\<close>, on indices: \<open>it\<close> runs from
  \<open>l\<close> and stops when it equals \<open>r\<close>. Reading an entry is checked against the length of the
  store.
\<close>

function simple_scan :: "(u64 \<Rightarrow> u64) \<Rightarrow> u64 list \<Rightarrow> u64 \<Rightarrow> u64 \<Rightarrow> nat \<Rightarrow> nat \<Rightarrow> nat \<Rightarrow> u64 list
    \<Rightarrow> error + u64 list" where
  "simple_scan rp es p msk errors it r res =
     (if it = r then Inr res
      else if \<not> it < length es then Inl OutOfRange
      else simple_scan rp es p msk errors (it + 1) r
             (if cnt (p XOR es ! it) \<le> errors then res @ [rp (es ! it OR msk)] else res))"
  by pat_completeness auto
termination
  by (relation "measure (\<lambda>(rp, es, p, msk, errors, it, r, res). length es - it)") auto

declare simple_scan.simps [simp del]

definition simple_match :: "perm_family \<Rightarrow> simple_index \<Rightarrow> u64 \<Rightarrow> nat \<Rightarrow> bool
    \<Rightarrow> error + (u64 list \<times> u64)" where
  "simple_match cfg idx q errors find_only_candidates =
     (let bucket = get_bucket_id cfg q
      in case slice_left (m_C_sel idx) (unat bucket) of
           None \<Rightarrow> Inl OutOfRange
         | Some l \<Rightarrow>
             (case slice_right (m_C_sel idx) (unat bucket) of
                None \<Rightarrow> Inl OutOfRange
              | Some r \<Rightarrow>
                  let candidates = (word_of_nat r :: u64) - word_of_nat l
                  in if find_only_candidates then Inr ([], candidates)
                     else let p = mi_permute cfg q AND mask (64 - splitter_bits cfg);
                              msk = push_bit (64 - splitter_bits cfg) bucket
                          in case simple_scan (mi_rev_permute cfg) (m_entries idx) p msk errors l r [] of
                               Inl e \<Rightarrow> Inl e
                             | Inr res \<Rightarrow> Inr (res, candidates)))"


section \<open>The triangle index\<close>

record triangle_index =
  t_n :: nat
  m_low_entries :: "u32 list"
  m_mid_entries :: "u64 list"
  t_C :: "bool list"
  t_C_sel :: sel_support

definition distance_bits :: nat where
  "distance_bits = 6"

definition low_bits :: nat where
  "low_bits = 32"

definition low_mask :: u64 where
  "low_mask = push_bit low_bits 1 - 1"

definition mid_bits :: "perm_family \<Rightarrow> nat" where
  "mid_bits cfg = 64 - (low_bits + splitter_bits cfg - distance_bits)"

definition mid_shift :: nat where
  "mid_shift = low_bits"

definition mid_mask :: "perm_family \<Rightarrow> u64" where
  "mid_mask cfg = push_bit (mid_bits cfg) 1 - 1"

definition high_shift :: "perm_family \<Rightarrow> nat" where
  "high_shift cfg = 64 - splitter_bits cfg + distance_bits"

definition high_prefix :: "perm_family \<Rightarrow> u64 \<Rightarrow> u64" where
  "high_prefix cfg x = drop_bit (64 - (splitter_bits cfg - distance_bits)) (mi_permute cfg x)"

definition tri_bucket_id :: "perm_family \<Rightarrow> u64 \<Rightarrow> u64" where
  "tri_bucket_id cfg x =
     (let cardin = (word_of_nat (cnt x) :: u64)
      in push_bit distance_bits (high_prefix cfg x) OR cardin)"

definition get_bucket_left :: "perm_family \<Rightarrow> u64 \<Rightarrow> nat \<Rightarrow> u64" where
  "get_bucket_left cfg x n_errors =
     (let cardin = cnt x;
          cardin = (if cardin > n_errors then cardin - n_errors else 0)
      in push_bit distance_bits (high_prefix cfg x) OR word_of_nat cardin)"

definition get_bucket_right :: "perm_family \<Rightarrow> u64 \<Rightarrow> nat \<Rightarrow> u64" where
  "get_bucket_right cfg x n_errors =
     (let cardin = cnt x;
          cardin = (if cardin + n_errors < 64 then cardin + n_errors else 64)
      in push_bit distance_bits (high_prefix cfg x) OR word_of_nat cardin)"

text \<open>
  The payload of a key in \<open>build_small_universe\<close>: \<open>low_item\<close>, \<open>mid_item\<close> and
  \<open>low_xor\<close>. \<open>m_low_entries\<close> is an \<open>int_vector<32>\<close>, so the store of \<open>low_xor\<close> keeps
  its low 32 bits.

  Modelled from the spec: \<open>mid_entries_trait\<close> of \<open>multi_idx_helper.hpp\<close> is a vector of
  integers that holds one \<open>mid_item\<close> per entry; \<open>assign\<close> stores at an index, the index
  operator reads.
\<close>

definition low_item :: "u64 \<Rightarrow> u64" where
  "low_item permuted_item = permuted_item AND low_mask"

definition mid_item :: "perm_family \<Rightarrow> u64 \<Rightarrow> u64" where
  "mid_item cfg permuted_item = drop_bit mid_shift permuted_item AND mid_mask cfg"

definition low_xor :: "perm_family \<Rightarrow> u64 \<Rightarrow> u64" where
  "low_xor cfg permuted_item = low_item permuted_item XOR mid_item cfg permuted_item"

fun place2 :: "(u64 \<Rightarrow> nat) \<Rightarrow> (u64 \<Rightarrow> u32) \<Rightarrow> (u64 \<Rightarrow> u64) \<Rightarrow> u64 list \<Rightarrow> nat list \<Rightarrow> u32 list
    \<Rightarrow> u64 list \<Rightarrow> error + (nat list \<times> u32 list \<times> u64 list)" where
  "place2 bid lo mi [] ps ls ms = Inr (ps, ls, ms)"
| "place2 bid lo mi (x # xs) ps ls ms =
     (let bucket = bid x in
      if \<not> bucket < length ps then Inl OutOfRange
      else let i = sub64 (ps ! bucket) bucket in
        if \<not> i < length ms \<or> \<not> i < length ls then Inl OutOfRange
        else place2 bid lo mi xs (ps[bucket := ps ! bucket + 1]) (ls[i := lo x]) (ms[i := mi x]))"

definition triangle_build :: "perm_family \<Rightarrow> u64 list \<Rightarrow> error + triangle_index" where
  "triangle_build cfg input_entries =
     (let n = length input_entries;
          splitter_universe = 2 ^ splitter_bits cfg;
          bid = (\<lambda>x. unat (tri_bucket_id cfg x))
      in case histogram bid input_entries (replicate (splitter_universe + 1) 0) of
           Inl e \<Rightarrow> Inl e
         | Inr prefix_sums \<Rightarrow>
             let C = build_C prefix_sums (splitter_universe + n)
             in case prefix_sums_scan prefix_sums of
                  Inl e \<Rightarrow> Inl e
                | Inr cursors \<Rightarrow>
                    (case place2 bid (\<lambda>x. ucast (low_xor cfg (mi_permute cfg x)))
                            (\<lambda>x. mid_item cfg (mi_permute cfg x)) input_entries cursors
                            (replicate n 0) (replicate n 0) of
                       Inl e \<Rightarrow> Inl e
                     | Inr (cursors', ls, ms) \<Rightarrow>
                         Inr \<lparr>t_n = n, m_low_entries = ls, m_mid_entries = ms, t_C = C,
                              t_C_sel = Sel C\<rparr>))"

subsection \<open>The query loop\<close>

text \<open>
  The values \<open>match\<close> computes from the query before the loops.
\<close>

record query_parts =
  q_permuted :: u64
  q_high :: u64
  q_xor :: u64

definition query_parts_of :: "perm_family \<Rightarrow> u64 \<Rightarrow> query_parts" where
  "query_parts_of cfg q =
     (let qp = mi_permute cfg q;
          qh = push_bit (high_shift cfg) (drop_bit (high_shift cfg) qp);
          q_low = (ucast qp :: u32);
          q_mid = drop_bit mid_shift qp AND mid_mask cfg
      in \<lparr>q_permuted = qp, q_high = qh, q_xor = ucast q_low XOR q_mid\<rparr>)"

text \<open>
  The body shared by the three loops once an entry has passed the 32-bit filter: read the
  mid entry at the same index, rebuild the permuted key and compare all 64 bits.
\<close>

definition verify :: "perm_family \<Rightarrow> triangle_index \<Rightarrow> query_parts \<Rightarrow> nat \<Rightarrow> nat \<Rightarrow> u64 \<Rightarrow> u64 list
    \<Rightarrow> error + u64 list" where
  "verify cfg idx qs errors l item_xor res =
     (if \<not> l < length (m_mid_entries idx) then Inl OutOfRange
      else let item_mid = m_mid_entries idx ! l;
               item_low = item_xor XOR item_mid;
               curr_el = q_high qs OR push_bit mid_shift item_mid OR item_low
           in if cnt (q_permuted qs XOR curr_el) \<le> errors
              then Inr (res @ [mi_rev_permute cfg curr_el]) else Inr res)"

text \<open>
  The scalar step of the prologue (\<open>_mm_popcnt_u32\<close>, whose argument is converted to 32
  bits) and of the epilogue (\<open>sdsl::bits::cnt\<close> on 64 bits).
\<close>

definition prologue_step :: "perm_family \<Rightarrow> triangle_index \<Rightarrow> query_parts \<Rightarrow> nat \<Rightarrow> nat \<Rightarrow> u64 list
    \<Rightarrow> error + u64 list" where
  "prologue_step cfg idx qs errors it res =
     (if \<not> it < length (m_low_entries idx) then Inl OutOfRange
      else let item_xor = m_low_entries idx ! it
           in if cnt (ucast (q_xor qs XOR ucast item_xor) :: u32) \<le> errors
              then verify cfg idx qs errors it (ucast item_xor) res else Inr res)"

definition epilogue_step :: "perm_family \<Rightarrow> triangle_index \<Rightarrow> query_parts \<Rightarrow> nat \<Rightarrow> nat \<Rightarrow> u64 list
    \<Rightarrow> error + u64 list" where
  "epilogue_step cfg idx qs errors it res =
     (if \<not> it < length (m_low_entries idx) then Inl OutOfRange
      else let item_xor = (ucast (m_low_entries idx ! it) :: u64)
           in if cnt (q_xor qs XOR item_xor) \<le> errors
              then verify cfg idx qs errors it item_xor res else Inr res)"


text \<open>
  The SIMD block. \<open>_mm_cmpgt_epi32(tk, popcounts)\<close> sets all 32 bits of a lane whose
  popcount is below \<open>errors + 1\<close>; \<open>_mm_movemask_epi8\<close> collects the top bit of each of
  the 16 bytes, four bits per lane. \<open>__builtin_ffs\<close> is one plus the index of the lowest
  one-bit, and zero for zero.

  Modelled from the spec: \<open>popcount_epi32\<close> of \<open>simd_utils.hpp\<close> is the popcount of each
  32-bit lane.
\<close>

definition movemask_epi8 :: "bool list \<Rightarrow> 16 word" where
  "movemask_epi8 lanes =
     fold (\<lambda>j m. if lanes ! j then m OR push_bit (4 * j) 15 else m) [0..<4] 0"

fun ffs_from :: "16 word \<Rightarrow> nat \<Rightarrow> nat \<Rightarrow> nat" where
  "ffs_from m 0 i = 0"
| "ffs_from m (Suc n) i = (if bit m i then i + 1 else ffs_from m n (i + 1))"

definition ffs :: "16 word \<Rightarrow> nat" where
  "ffs m = ffs_from m 16 0"

definition lane_mask :: "triangle_index \<Rightarrow> query_parts \<Rightarrow> nat \<Rightarrow> nat \<Rightarrow> 16 word" where
  "lane_mask idx qs errors it =
     (let query = (ucast (q_xor qs) :: u32);
          popcounts = map (\<lambda>j. cnt (m_low_entries idx ! (it + j) XOR query)) [0..<4]
      in movemask_epi8 (map (\<lambda>c. c < errors + 1) popcounts) AND 0x1111)"

lemma ffs_from_bit:
  "\<exists>j. i \<le> j \<and> j < i + n \<and> bit m j \<Longrightarrow> 0 < ffs_from m n i \<and> bit m (ffs_from m n i - 1)"
proof (induction n arbitrary: i)
  case 0
  then show ?case by auto
next
  case (Suc n)
  show ?case
  proof (cases "bit m i")
    case True
    then show ?thesis by simp
  next
    case False
    from Suc.prems obtain j where j: "i \<le> j" "j < i + Suc n" "bit m j" by blast
    with False have "i \<noteq> j" by auto
    with j have "\<exists>j. i + 1 \<le> j \<and> j < (i + 1) + n \<and> bit m j"
      by (intro exI[of _ j]) auto
    from Suc.IH[OF this] False show ?thesis by simp
  qed
qed

lemma ffs_bit: "m \<noteq> 0 \<Longrightarrow> 0 < ffs m \<and> bit m (ffs m - 1)"
proof -
  assume "m \<noteq> 0"
  then obtain j where "bit m j"
    by (auto simp: bit_eq_iff)
  moreover from this have "j < 16"
    using bit_imp_le_length[of m j] by simp
  ultimately have "\<exists>j. 0 \<le> j \<and> j < 0 + 16 \<and> bit m j"
    by auto
  from ffs_from_bit[OF this] show ?thesis
    by (simp add: ffs_def)
qed

lemma cnt_clear_lowest: "m \<noteq> 0 \<Longrightarrow> cnt (m XOR 2 ^ (ffs m - Suc 0)) < cnt m"
proof -
  assume m: "m \<noteq> 0"
  define i where "i = ffs m - Suc 0"
  have b: "bit m i" using ffs_bit[OF m] by (simp add: i_def)
  then have i16: "i < 16" using bit_imp_le_length[of m i] by simp
  have "bit (m XOR 2 ^ i) j \<longleftrightarrow> bit m j \<and> j \<noteq> i" for j
    using b i16 by (auto simp: bit_xor_iff bit_exp_iff possible_bit_word)
  then have "{j. bit (m XOR 2 ^ i) j} = {j. bit m j} - {i}"
    by auto
  moreover have "card ({j. bit m j} - {i}) < card {j. bit m j}"
    using b by (intro card_Diff1_less) auto
  ultimately show ?thesis
    by (simp add: cnt_card i_def)
qed

text \<open>
  \<open>while (mask) { i = ffs(mask) - 1; mask = mask ^ (1 << i); i = i/4; ... }\<close>, with the
  body \<open>f\<close> that verifies lane \<open>i\<close>.
\<close>

function simd_dispatch :: "(nat \<Rightarrow> u64 list \<Rightarrow> error + u64 list) \<Rightarrow> 16 word \<Rightarrow> u64 list
    \<Rightarrow> error + u64 list" where
  "simd_dispatch f msk res =
     (if msk = 0 then Inr res
      else case f ((ffs msk - 1) div 4) res of
             Inl e \<Rightarrow> Inl e
           | Inr res' \<Rightarrow> simd_dispatch f (msk XOR push_bit (ffs msk - 1) 1) res')"
  by pat_completeness auto
termination
  by (relation "measure (\<lambda>(f, msk, res). cnt msk)") (auto simp: cnt_clear_lowest)

declare simd_dispatch.simps [simp del]

text \<open>
  The three loops of \<open>match\<close>. \<open>it\<close> and \<open>l\<close> advance together, so one index stands for
  both. The address of entry \<open>it\<close> of \<open>m_low_entries\<close> is \<open>base + 4 * it\<close>, where \<open>base\<close> is
  the address of the vector's data. Besides the results, each loop returns the list of the
  indices whose low entry it loaded for the 32-bit filter, in the order of the loads.
\<close>

function prologue :: "perm_family \<Rightarrow> triangle_index \<Rightarrow> query_parts \<Rightarrow> nat \<Rightarrow> nat \<Rightarrow> nat \<Rightarrow> nat
    \<Rightarrow> u64 list \<Rightarrow> nat list \<Rightarrow> error + (nat \<times> u64 list \<times> nat list)" where
  "prologue cfg idx qs errors base it r res tr =
     (if (base + 4 * it) mod 16 \<noteq> 0 \<and> it \<noteq> r then
        if \<not> it < length (m_low_entries idx) then Inl OutOfRange
        else case prologue_step cfg idx qs errors it res of
               Inl e \<Rightarrow> Inl e
             | Inr res' \<Rightarrow> prologue cfg idx qs errors base (it + 1) r res' (tr @ [it])
      else Inr (it, res, tr))"
  by pat_completeness auto
termination
  by (relation "measure (\<lambda>(cfg, idx, qs, errors, base, it, r, res, tr).
        length (m_low_entries idx) - it)") auto

declare prologue.simps [simp del]

function simd_body :: "perm_family \<Rightarrow> triangle_index \<Rightarrow> query_parts \<Rightarrow> nat \<Rightarrow> nat \<Rightarrow> nat
    \<Rightarrow> u64 list \<Rightarrow> nat list \<Rightarrow> error + (nat \<times> u64 list \<times> nat list)" where
  "simd_body cfg idx qs errors it r res tr =
     (if int it < int r - 4 then
        if \<not> it + 3 < length (m_low_entries idx) then Inl OutOfRange
        else case simd_dispatch
                    (\<lambda>i. verify cfg idx qs errors (it + i) (ucast (m_low_entries idx ! (it + i))))
                    (lane_mask idx qs errors it) res of
               Inl e \<Rightarrow> Inl e
             | Inr res' \<Rightarrow>
                 simd_body cfg idx qs errors (it + 4) r res' (tr @ [it, it + 1, it + 2, it + 3])
      else Inr (it, res, tr))"
  by pat_completeness auto
termination
  by (relation "measure (\<lambda>(cfg, idx, qs, errors, it, r, res, tr). r - it)") auto

declare simd_body.simps [simp del]

function epilogue :: "perm_family \<Rightarrow> triangle_index \<Rightarrow> query_parts \<Rightarrow> nat \<Rightarrow> nat \<Rightarrow> nat
    \<Rightarrow> u64 list \<Rightarrow> nat list \<Rightarrow> error + (u64 list \<times> nat list)" where
  "epilogue cfg idx qs errors it r res tr =
     (if it \<noteq> r then
        if \<not> it < length (m_low_entries idx) then Inl OutOfRange
        else case epilogue_step cfg idx qs errors it res of
               Inl e \<Rightarrow> Inl e
             | Inr res' \<Rightarrow> epilogue cfg idx qs errors (it + 1) r res' (tr @ [it])
      else Inr (res, tr))"
  by pat_completeness auto
termination
  by (relation "measure (\<lambda>(cfg, idx, qs, errors, it, r, res, tr).
        length (m_low_entries idx) - it)") auto

declare epilogue.simps [simp del]

definition triangle_scan :: "perm_family \<Rightarrow> triangle_index \<Rightarrow> query_parts \<Rightarrow> nat \<Rightarrow> nat \<Rightarrow> nat \<Rightarrow> nat
    \<Rightarrow> error + (u64 list \<times> nat list)" where
  "triangle_scan cfg idx qs errors base l r =
     (case prologue cfg idx qs errors base l r [] [] of
        Inl e \<Rightarrow> Inl e
      | Inr (it, res, tr) \<Rightarrow>
          (case simd_body cfg idx qs errors it r res tr of
             Inl e \<Rightarrow> Inl e
           | Inr (it', res', tr') \<Rightarrow> epilogue cfg idx qs errors it' r res' tr'))"

text \<open>
  \<open>match\<close>. Its first statement, \<open>assert(n_errors <= perm_b_k::max_errors)\<close>, names
  \<open>n_errors\<close>, which is not declared in \<open>match\<close> (the parameter is \<open>errors\<close>); the function
  compiles only with assertions disabled, where the statement is empty. \<open>candidates\<close> is
  \<open>r - l\<close> in \<open>uint64_t\<close>.
\<close>

definition triangle_match :: "perm_family \<Rightarrow> nat \<Rightarrow> triangle_index \<Rightarrow> u64 \<Rightarrow> nat \<Rightarrow> bool
    \<Rightarrow> error + (u64 list \<times> u64)" where
  "triangle_match cfg base idx q errors find_only_candidates =
     (let bucket_left = get_bucket_left cfg q errors;
          bucket_right = get_bucket_right cfg q errors
      in case slice_left (t_C_sel idx) (unat bucket_left) of
           None \<Rightarrow> Inl OutOfRange
         | Some l \<Rightarrow>
             (case slice_right (t_C_sel idx) (unat bucket_right) of
                None \<Rightarrow> Inl OutOfRange
              | Some r \<Rightarrow>
                  let candidates = (word_of_nat r :: u64) - word_of_nat l
                  in if find_only_candidates then Inr ([], candidates)
                     else case triangle_scan cfg idx (query_parts_of cfg q) errors base l r of
                            Inl e \<Rightarrow> Inl e
                          | Inr (res, tr) \<Rightarrow> Inr (res, candidates)))"

section \<open>What the builder computes\<close>

text \<open>
  The counting sort is described by three functions of the input: \<open>cntb\<close>, the number of
  keys of a bucket; \<open>offs\<close>, the number of keys in the buckets before a bucket; and
  \<open>sorted_store\<close>, the payloads of the keys bucket by bucket, in input order within a
  bucket. \<open>pattern\<close> is the bit vector that has, for every bucket in turn, one zero per key
  followed by a one. \<open>slice es l r\<close> is the part of a store at the indices \<open>[l, r)\<close>.
\<close>

definition cntb :: "(u64 \<Rightarrow> nat) \<Rightarrow> u64 list \<Rightarrow> nat \<Rightarrow> nat" where
  "cntb bid xs b = length (filter (\<lambda>x. bid x = b) xs)"

definition offs :: "(u64 \<Rightarrow> nat) \<Rightarrow> u64 list \<Rightarrow> nat \<Rightarrow> nat" where
  "offs bid xs b = sum_list (map (cntb bid xs) [0..<b])"

definition pattern :: "nat list \<Rightarrow> bool list" where
  "pattern cs = concat (map (\<lambda>c. replicate c False @ [True]) cs)"

definition slice :: "'a list \<Rightarrow> nat \<Rightarrow> nat \<Rightarrow> 'a list" where
  "slice es l r = take (r - l) (drop l es)"

lemma cntb_Cons: "cntb bid (x # xs) b = (if bid x = b then 1 else 0) + cntb bid xs b"
  by (simp add: cntb_def)

lemma histogram_ok:
  "\<forall>x\<in>set xs. bid x < length ps \<Longrightarrow>
   histogram bid xs ps = Inr (map (\<lambda>b. ps ! b + cntb bid xs b) [0..<length ps])"
proof (induction xs arbitrary: ps)
  case Nil
  then show ?case by (simp add: cntb_def map_nth)
next
  case (Cons x xs)
  let ?ps = "ps[bid x := ps ! bid x + 1]"
  have "\<forall>y\<in>set xs. bid y < length ?ps" using Cons.prems by simp
  from Cons.IH[OF this] have "histogram bid xs ?ps = Inr (map (\<lambda>b. ?ps ! b + cntb bid xs b) [0..<length ps])"
    by simp
  moreover have "map (\<lambda>b. ?ps ! b + cntb bid xs b) [0..<length ps]
      = map (\<lambda>b. ps ! b + cntb bid (x # xs) b) [0..<length ps]"
    by (rule map_cong) (auto simp: cntb_Cons nth_list_update)
  ultimately show ?case using Cons.prems by simp
qed

lemma offs_Suc: "offs bid xs (Suc b) = offs bid xs b + cntb bid xs b"
  by (simp add: offs_def)

lemma offs_mono: "a \<le> b \<Longrightarrow> offs bid xs a \<le> offs bid xs b"
  by (induction b) (auto simp: offs_Suc le_Suc_eq)

lemma offs_total: "\<forall>x\<in>set xs. bid x < U \<Longrightarrow> offs bid xs U = length xs"
proof (induction xs)
  case Nil
  then show ?case by (simp add: offs_def cntb_def)
next
  case (Cons x xs)
  have "sum_list (map (\<lambda>b. (if bid x = b then 1 else 0) + cntb bid xs b) [0..<U])
      = sum_list (map (\<lambda>b. if bid x = b then 1 else (0::nat)) [0..<U]) + sum_list (map (cntb bid xs) [0..<U])"
    by (simp add: sum_list_addf)
  moreover have "sum_list (map (\<lambda>b. if bid x = b then 1 else (0::nat)) [0..<U]) = 1"
    using Cons.prems by (simp add: interv_sum_list_conv_sum_set_nat)
  ultimately show ?case using Cons by (simp add: offs_def cntb_Cons[abs_def])
qed

lemma length_pattern: "length (pattern cs) = sum_list cs + length cs"
  by (induction cs) (auto simp: pattern_def)

lemma pattern_Cons: "pattern (c # cs) = replicate c False @ True # pattern cs"
  by (simp add: pattern_def)

lemma C_writes_zip: "C_writes cs idx = zip [idx..<idx + length (pattern cs)] (pattern cs)"
proof (induction cs arbitrary: idx)
  case Nil
  then show ?case by (simp add: pattern_def)
next
  case (Cons c cs)
  let ?m = "length (pattern cs)"
  have a: "map (\<lambda>i. (idx + i, False)) [0..<c] = zip [idx..<idx + c] (replicate c False)"
    by (rule nth_equalityI) auto
  have "[idx..<idx + (c + Suc ?m)] = [idx..<idx + c] @ [idx + c..<idx + c + Suc ?m]"
    using upt_add_eq_append[of idx "idx + c" "Suc ?m"] by (simp add: add.assoc)
  also have "[idx + c..<idx + c + Suc ?m] = (idx + c) # [idx + c + 1..<idx + c + 1 + ?m]"
    by (simp add: upt_conv_Cons del: upt_Suc)
  finally have u: "[idx..<idx + length (pattern (c # cs))]
      = [idx..<idx + c] @ (idx + c) # [idx + c + 1..<idx + c + 1 + ?m]"
    by (simp add: pattern_Cons)
  show ?case
    unfolding u by (simp add: pattern_Cons Cons.IH a zip_append del: upt_Suc)
qed

lemma fold_bv_store_length: "length (fold bv_store ws bs) = length bs"
  by (induction ws arbitrary: bs) (auto simp: bv_store_def)

lemma fold_bv_store_nth:
  "j < length bs \<Longrightarrow>
   fold bv_store (zip [idx..<idx + length vs] vs) bs ! j
     = (if idx \<le> j \<and> j < idx + length vs then vs ! (j - idx) else bs ! j)"
proof (induction vs arbitrary: idx bs)
  case Nil
  then show ?case by auto
next
  case (Cons v vs)
  have z: "zip [idx..<idx + length (v # vs)] (v # vs)
      = (idx, v) # zip [Suc idx..<Suc idx + length vs] vs"
    by (simp add: upt_conv_Cons del: upt_Suc)
  have len: "j < length (bv_store (idx, v) bs)"
    using Cons.prems by (simp add: bv_store_def)
  show ?case
    unfolding z using Cons.IH[OF len, of "Suc idx"] Cons.prems
    by (auto simp: bv_store_def nth_list_update nth_Cons')
qed

lemma build_C_take:
  "len \<le> length (pattern cs) \<Longrightarrow> build_C cs len = take len (pattern cs)"
  by (rule nth_equalityI)
     (simp_all add: build_C_def C_writes_zip fold_bv_store_length
        fold_bv_store_nth[where idx = 0, simplified])


lemma select_1_replicate_False:
  "select_1 (replicate c False @ ys) i = map_option (\<lambda>p. p + c) (select_1 ys i)"
  by (induction c) (auto simp: option.map_comp comp_def option.map_ident)

lemma select_1_pattern:
  "1 \<le> i \<Longrightarrow> i \<le> length cs \<Longrightarrow> select_1 (pattern cs) i = Some (sum_list (take i cs) + i - 1)"
proof (induction cs arbitrary: i)
  case Nil
  then show ?case by simp
next
  case (Cons c cs)
  show ?case
  proof (cases "i = 1")
    case True
    then show ?thesis
      by (simp add: pattern_Cons select_1_replicate_False)
  next
    case False
    with Cons.prems have i: "1 \<le> i - 1" "i - 1 \<le> length cs" by auto
    from False Cons.prems obtain k where k: "i = Suc (Suc k)"
      by (metis One_nat_def Suc_le_D le_antisym not_less_eq_eq)
    show ?thesis
      using Cons.IH[OF i] False
      by (simp add: pattern_Cons select_1_replicate_False k)
  qed
qed

lemma psum_loop_eq:
  "psum_loop cs i acc = map (\<lambda>j. acc + sum_list (take j cs) + i + j) [0..<length cs]"
proof (induction cs arbitrary: i acc)
  case Nil
  then show ?case by simp
next
  case (Cons c cs)
  have "map (\<lambda>j. acc + sum_list (take j (c # cs)) + i + j) [0..<length (c # cs)]
      = (acc + i) # map (\<lambda>j. acc + sum_list (take (Suc j) (c # cs)) + i + Suc j) [0..<length cs]"
    by (simp add: upt_conv_Cons map_Suc_upt[symmetric] del: upt_Suc)
  then show ?case
    by (simp add: Cons.IH add.assoc add.left_commute)
qed


lemma sub64_eq: "b \<le> a \<Longrightarrow> a < 2 ^ 64 \<Longrightarrow> sub64 a b = a - b"
proof -
  assume ba: "b \<le> a" and a: "a < 2 ^ 64"
  have "(word_of_nat a :: u64) - word_of_nat b = word_of_nat (a - b)"
    using ba by simp
  moreover have "unat (word_of_nat (a - b) :: u64) = a - b"
    using a by (simp add: unat_of_nat)
  ultimately show ?thesis
    unfolding sub64_def by simp
qed

lemma cntb_append: "cntb bid (xs @ ys) b = cntb bid xs b + cntb bid ys b"
  by (simp add: cntb_def)

lemma offs_cntb_le:
  assumes "\<forall>x\<in>set full. bid x < U" and "b < U"
  shows "offs bid full b + cntb bid full b \<le> length full"
proof -
  have "offs bid full (Suc b) \<le> offs bid full U"
    using assms(2) by (intro offs_mono) simp
  then show ?thesis
    using offs_total[OF assms(1)] by (simp add: offs_Suc)
qed

lemma place_inv:
  assumes bids: "\<forall>x\<in>set full. bid x < U" and small: "length full + U < 2 ^ 64"
  shows "full = pre @ rest \<Longrightarrow> length ps = U + 1 \<Longrightarrow> length es = length full \<Longrightarrow>
     (\<forall>b\<le>U. ps ! b = offs bid full b + b + cntb bid pre b) \<Longrightarrow>
     (\<forall>b<U. \<forall>j<cntb bid pre b. es ! (offs bid full b + j) = pay (filter (\<lambda>x. bid x = b) pre ! j)) \<Longrightarrow>
     \<exists>ps' es'. place bid pay rest ps es = Inr (ps', es') \<and> length es' = length full \<and>
        (\<forall>b<U. \<forall>j<cntb bid full b.
           es' ! (offs bid full b + j) = pay (filter (\<lambda>x. bid x = b) full ! j))"
proof (induction rest arbitrary: pre ps es)
  case Nil
  then show ?case by simp
next
  case (Cons x rest)
  let ?b0 = "bid x"
  let ?i = "offs bid full ?b0 + cntb bid pre ?b0"
  have b0: "?b0 < U" using bids Cons.prems(1) by simp
  have psb0: "ps ! ?b0 = offs bid full ?b0 + ?b0 + cntb bid pre ?b0"
    using Cons.prems(4) b0 by simp
  have cfull: "cntb bid full b = cntb bid pre b + (if bid x = b then 1 else 0) + cntb bid rest b" for b
    unfolding Cons.prems(1) by (simp add: cntb_append cntb_Cons)
  have bound: "offs bid full b + cntb bid full b \<le> length full" if "b < U" for b
    using offs_cntb_le[OF bids that] .
  have i_lt: "?i < length full"
    using bound[OF b0] cfull[of ?b0] by simp
  have "ps ! ?b0 < 2 ^ 64"
    using psb0 i_lt b0 small by simp
  then have sub: "sub64 (ps ! ?b0) ?b0 = ?i"
    using psb0 by (simp add: sub64_eq)
  let ?ps = "ps[?b0 := ps ! ?b0 + 1]"
  let ?es = "es[?i := pay x]"
  have step: "place bid pay (x # rest) ps es = place bid pay rest ?ps ?es"
    using b0 Cons.prems(2,3) i_lt by (simp add: sub Let_def)
  have p1: "full = (pre @ [x]) @ rest" using Cons.prems(1) by simp
  have p2: "length ?ps = U + 1" using Cons.prems(2) by simp
  have p3: "length ?es = length full" using Cons.prems(3) by simp
  have p4: "\<forall>b\<le>U. ?ps ! b = offs bid full b + b + cntb bid (pre @ [x]) b"
    using Cons.prems(2,4) by (auto simp: nth_list_update cntb_append cntb_Cons cntb_def)
  have p5: "\<forall>b<U. \<forall>j<cntb bid (pre @ [x]) b.
      ?es ! (offs bid full b + j) = pay (filter (\<lambda>y. bid y = b) (pre @ [x]) ! j)"
  proof (intro allI impI)
    fix b j
    assume b: "b < U" and j: "j < cntb bid (pre @ [x]) b"
    show "?es ! (offs bid full b + j) = pay (filter (\<lambda>y. bid y = b) (pre @ [x]) ! j)"
    proof (cases "b = ?b0")
      case True
      show ?thesis
      proof (cases "j = cntb bid pre ?b0")
        case True
        with \<open>b = ?b0\<close> show ?thesis
          using i_lt Cons.prems(3) by (simp add: cntb_def nth_append)
      next
        case False
        with j \<open>b = ?b0\<close> have jl: "j < cntb bid pre b"
          by (simp add: cntb_append cntb_Cons cntb_def)
        with Cons.prems(5) b have "es ! (offs bid full b + j) = pay (filter (\<lambda>y. bid y = b) pre ! j)"
          by blast
        with jl False \<open>b = ?b0\<close> show ?thesis
          by (simp add: cntb_def nth_append)
      qed
    next
      case False
      with j have jl: "j < cntb bid pre b"
        by (simp add: cntb_append cntb_Cons cntb_def)
      have ne: "offs bid full b + j \<noteq> ?i"
      proof (cases "b < ?b0")
        case True
        then have "offs bid full (Suc b) \<le> offs bid full ?b0"
          by (intro offs_mono) simp
        with jl cfull[of b] show ?thesis by (simp add: offs_Suc)
      next
        case False
        with \<open>b \<noteq> ?b0\<close> have "offs bid full (Suc ?b0) \<le> offs bid full b"
          by (intro offs_mono) simp
        with cfull[of ?b0] show ?thesis by (simp add: offs_Suc)
      qed
      from Cons.prems(5) b jl have "es ! (offs bid full b + j) = pay (filter (\<lambda>y. bid y = b) pre ! j)"
        by blast
      with ne jl False show ?thesis
        by (simp add: cntb_def nth_append)
    qed
  qed
  from Cons.IH[OF p1 p2 p3 p4 p5] show ?case
    unfolding step .
qed


definition bucket_entries :: "(u64 \<Rightarrow> nat) \<Rightarrow> (u64 \<Rightarrow> 'a) \<Rightarrow> u64 list \<Rightarrow> nat \<Rightarrow> 'a list" where
  "bucket_entries bid pay xs b = map pay (filter (\<lambda>x. bid x = b) xs)"

definition sorted_store :: "(u64 \<Rightarrow> nat) \<Rightarrow> (u64 \<Rightarrow> 'a) \<Rightarrow> u64 list \<Rightarrow> nat \<Rightarrow> nat \<Rightarrow> 'a list" where
  "sorted_store bid pay xs b1 b2 = concat (map (bucket_entries bid pay xs) [b1..<b2])"

lemma length_bucket_entries: "length (bucket_entries bid pay xs b) = cntb bid xs b"
  by (simp add: bucket_entries_def cntb_def)

lemma length_sorted_store: "length (sorted_store bid pay xs 0 b) = offs bid xs b"
  by (induction b) (auto simp: sorted_store_def offs_Suc length_bucket_entries offs_def)

lemma sorted_store_split:
  "a \<le> b \<Longrightarrow> b \<le> c \<Longrightarrow>
   sorted_store bid pay xs a c = sorted_store bid pay xs a b @ sorted_store bid pay xs b c"
proof -
  assume "a \<le> b" "b \<le> c"
  then have "[a..<c] = [a..<b] @ [b..<c]"
    by (metis le_Suc_ex upt_add_eq_append)
  then show ?thesis
    by (simp add: sorted_store_def)
qed

lemma slice_sorted_store:
  assumes "b1 \<le> b2" "b2 \<le> U"
  shows "slice (sorted_store bid pay xs 0 U) (offs bid xs b1) (offs bid xs b2)
       = sorted_store bid pay xs b1 b2"
proof -
  have s: "sorted_store bid pay xs 0 U
      = sorted_store bid pay xs 0 b1 @ sorted_store bid pay xs b1 b2 @ sorted_store bid pay xs b2 U"
    using assms by (simp add: sorted_store_split[of 0 b1 U] sorted_store_split[of b1 b2 U])
  have "offs bid xs b2 = length (sorted_store bid pay xs 0 b1 @ sorted_store bid pay xs b1 b2)"
    using assms length_sorted_store[of bid pay xs b2]
    by (simp add: sorted_store_split[of 0 b1 b2])
  then have l: "length (sorted_store bid pay xs b1 b2) = offs bid xs b2 - offs bid xs b1"
    by (simp add: length_sorted_store)
  show ?thesis
    unfolding slice_def s by (simp add: length_sorted_store l)
qed

lemma store_eq_sorted_store:
  assumes len: "length es = offs bid xs U"
    and nth: "\<forall>b<U. \<forall>j<cntb bid xs b. es ! (offs bid xs b + j) = pay (filter (\<lambda>x. bid x = b) xs ! j)"
  shows "es = sorted_store bid pay xs 0 U"
proof -
  have "b \<le> U \<Longrightarrow> take (offs bid xs b) es = sorted_store bid pay xs 0 b" for b
  proof (induction b)
    case 0
    then show ?case by (simp add: offs_def sorted_store_def)
  next
    case (Suc b)
    then have b: "b < U" by simp
    have le: "offs bid xs (Suc b) \<le> length es"
      unfolding len using Suc.prems by (rule offs_mono)
    have "take (cntb bid xs b) (drop (offs bid xs b) es) = bucket_entries bid pay xs b"
    proof (rule nth_equalityI)
      show "length (take (cntb bid xs b) (drop (offs bid xs b) es)) = length (bucket_entries bid pay xs b)"
        using le by (simp add: length_bucket_entries offs_Suc)
    next
      fix j
      assume "j < length (take (cntb bid xs b) (drop (offs bid xs b) es))"
      then have j: "j < cntb bid xs b" by simp
      with nth b have "es ! (offs bid xs b + j) = pay (filter (\<lambda>x. bid x = b) xs ! j)"
        by blast
      with j le show "take (cntb bid xs b) (drop (offs bid xs b) es) ! j = bucket_entries bid pay xs b ! j"
        by (simp add: bucket_entries_def cntb_def offs_Suc)
    qed
    moreover have "take (offs bid xs (Suc b)) es
        = take (offs bid xs b) es @ take (cntb bid xs b) (drop (offs bid xs b) es)"
      by (simp add: offs_Suc take_add)
    ultimately show ?case
      using Suc by (simp add: sorted_store_def)
  qed
  from this[of U] len show ?thesis by simp
qed

lemma hist_eq:
  "\<forall>x\<in>set xs. bid x < U \<Longrightarrow>
   histogram bid xs (replicate (U + 1) 0) = Inr (map (cntb bid xs) [0..<U + 1])"
proof -
  assume bids: "\<forall>x\<in>set xs. bid x < U"
  then have "\<forall>x\<in>set xs. bid x < length (replicate (U + 1) (0::nat))" by auto
  from histogram_ok[OF this]
  have "histogram bid xs (replicate (U + 1) 0)
      = Inr (map (\<lambda>b. replicate (U + 1) 0 ! b + cntb bid xs b) [0..<U + 1])"
    by simp
  moreover have "map (\<lambda>b. replicate (U + 1) 0 ! b + cntb bid xs b) [0..<U + 1]
      = map (cntb bid xs) [0..<U + 1]"
    by (rule map_cong) (auto simp del: replicate_Suc upt_Suc)
  ultimately show ?thesis by simp
qed

lemma cntb_out: "\<forall>x\<in>set xs. bid x < U \<Longrightarrow> cntb bid xs U = 0"
  by (auto simp: cntb_def filter_empty_conv)

lemma sum_list_take_cntb:
  "b \<le> m \<Longrightarrow> sum_list (take b (map (cntb bid xs) [0..<m])) = offs bid xs b"
  by (simp add: offs_def take_map)

lemma build_C_eq:
  assumes bids: "\<forall>x\<in>set xs. bid x < U"
  shows "build_C (map (cntb bid xs) [0..<U + 1]) (U + length xs) = pattern (map (cntb bid xs) [0..<U])"
proof -
  let ?h = "map (cntb bid xs) [0..<U]"
  have h: "map (cntb bid xs) [0..<U + 1] = ?h @ [0]"
    using cntb_out[OF bids] by simp
  have p: "pattern (?h @ [0]) = pattern ?h @ [True]"
    by (simp add: pattern_def)
  have len: "length (pattern ?h) = U + length xs"
    using offs_total[OF bids] by (simp add: length_pattern offs_def)
  show ?thesis
    unfolding h by (subst build_C_take) (simp_all add: p len)
qed

lemma cursors_eq:
  "prefix_sums_scan (map (cntb bid xs) [0..<U + 1])
     = Inr (map (\<lambda>b. offs bid xs b + b) [0..<U + 1])"
proof -
  let ?f = "cntb bid xs"
  have h: "map ?f [0..<U + 1] = ?f 0 # map (\<lambda>j. ?f (Suc j)) [0..<U]"
    by (simp add: upt_conv_Cons map_Suc_upt[symmetric] del: upt_Suc)
  have t: "sum_list (take j (map (\<lambda>j. ?f (Suc j)) [0..<U])) + ?f 0 = offs bid xs (Suc j)"
    if "j < U" for j
  proof -
    have "take (Suc j) (map ?f [0..<U + 1]) = ?f 0 # take j (map (\<lambda>j. ?f (Suc j)) [0..<U])"
      unfolding h by simp
    moreover have "sum_list (take (Suc j) (map ?f [0..<U + 1])) = offs bid xs (Suc j)"
      using that by (intro sum_list_take_cntb) simp
    ultimately show ?thesis by simp
  qed
  have "psum_loop (map (\<lambda>j. ?f (Suc j)) [0..<U]) 1 (?f 0)
      = map (\<lambda>j. offs bid xs (Suc j) + Suc j) [0..<U]"
    unfolding psum_loop_eq by (rule map_cong) (use t in \<open>auto simp: add.commute\<close>)
  moreover have "map (\<lambda>b. offs bid xs b + b) [0..<U + 1]
      = 0 # map (\<lambda>j. offs bid xs (Suc j) + Suc j) [0..<U]"
    by (simp add: upt_conv_Cons map_Suc_upt[symmetric] offs_def del: upt_Suc)
  ultimately show ?thesis
    unfolding h by simp
qed

lemma place_eq:
  assumes bids: "\<forall>x\<in>set xs. bid x < U" and small: "length xs + U < 2 ^ 64"
  shows "\<exists>ps'. place bid pay xs (map (\<lambda>b. offs bid xs b + b) [0..<U + 1]) (replicate (length xs) z)
     = Inr (ps', sorted_store bid pay xs 0 U)"
proof -
  let ?ps = "map (\<lambda>b. offs bid xs b + b) [0..<U + 1]"
  have a: "xs = [] @ xs" by simp
  have b: "length ?ps = U + 1" by simp
  have c: "length (replicate (length xs) z) = length xs" by simp
  have d: "\<forall>b\<le>U. ?ps ! b = offs bid xs b + b + cntb bid [] b"
    by (auto simp: cntb_def nth_append simp del: upt_Suc)
  have e: "\<forall>b<U. \<forall>j<cntb bid [] b.
      replicate (length xs) z ! (offs bid xs b + j) = pay (filter (\<lambda>x. bid x = b) [] ! j)"
    by (simp add: cntb_def)
  from place_inv[OF bids small a b c d e]
  obtain ps' es' where r: "place bid pay xs ?ps (replicate (length xs) z) = Inr (ps', es')"
    and l: "length es' = length xs"
    and n: "\<forall>b<U. \<forall>j<cntb bid xs b. es' ! (offs bid xs b + j) = pay (filter (\<lambda>x. bid x = b) xs ! j)"
    by blast
  have "es' = sorted_store bid pay xs 0 U"
    using l n offs_total[OF bids] by (intro store_eq_sorted_store) simp_all
  with r show ?thesis by blast
qed

lemma slice_pos_eq: "1 \<le> b \<Longrightarrow> a + b < 2 ^ 64 \<Longrightarrow> slice_pos (a + b - 1) b = a"
proof -
  assume b: "1 \<le> b" and s: "a + b < 2 ^ 64"
  from b obtain m where m: "a + b = Suc m"
    by (cases "a + b") auto
  have "(word_of_nat (a + b - 1) :: u64) + 1 = word_of_nat (a + b)"
    unfolding m by simp
  then have "(word_of_nat (a + b - 1) :: u64) - word_of_nat b + 1 = word_of_nat a"
    by (simp add: algebra_simps)
  moreover have "unat (word_of_nat a :: u64) = a"
    using s by (simp add: unat_of_nat)
  ultimately show ?thesis
    by (simp add: slice_pos_def)
qed

lemma slice_left_eq:
  assumes small: "offs bid xs U + U < 2 ^ 64" and b: "b \<le> U"
  shows "slice_left (Sel (pattern (map (cntb bid xs) [0..<U]))) b = Some (offs bid xs b)"
proof (cases "b = 0")
  case True
  then show ?thesis by (simp add: slice_left_def offs_def)
next
  case False
  then have b1: "1 \<le> b" by simp
  have "offs bid xs b \<le> offs bid xs U" using b by (rule offs_mono)
  then have lt: "offs bid xs b + b < 2 ^ 64" using small b by simp
  have "select_1 (pattern (map (cntb bid xs) [0..<U])) b = Some (offs bid xs b + b - 1)"
    using b1 b by (simp add: select_1_pattern sum_list_take_cntb)
  then show ?thesis
    using False slice_pos_eq[OF b1 lt] by (simp add: slice_left_def sel_query_def)
qed

lemma slice_right_eq:
  assumes small: "offs bid xs U + U < 2 ^ 64" and b: "b < U"
  shows "slice_right (Sel (pattern (map (cntb bid xs) [0..<U]))) b = Some (offs bid xs (Suc b))"
proof -
  have "offs bid xs (Suc b) \<le> offs bid xs U" using b by (intro offs_mono) simp
  then have lt: "offs bid xs (Suc b) + Suc b < 2 ^ 64" using small b by simp
  have "select_1 (pattern (map (cntb bid xs) [0..<U])) (Suc b) = Some (offs bid xs (Suc b) + Suc b - 1)"
    using b by (subst select_1_pattern) (simp_all add: sum_list_take_cntb)
  then show ?thesis
    using slice_pos_eq[OF _ lt] by (simp add: slice_right_def sel_query_def)
qed

section \<open>Word-level facts\<close>

lemma simple_bucket_range:
  assumes "1 \<le> splitter_bits cfg" "splitter_bits cfg \<le> 64"
  shows "unat (get_bucket_id cfg x) < 2 ^ splitter_bits cfg"
proof -
  let ?sb = "splitter_bits cfg"
  have "unat (mi_permute cfg x) < 2 ^ 64"
    using unsigned_less[of "mi_permute cfg x"] by simp
  also have "(2::nat) ^ 64 = 2 ^ ?sb * 2 ^ (64 - ?sb)"
    using assms by (simp flip: power_add)
  finally have "unat (mi_permute cfg x) div 2 ^ (64 - ?sb) < 2 ^ ?sb"
    by (rule less_mult_imp_div_less)
  moreover have "unat (drop_bit (64 - ?sb) (mi_permute cfg x))
      = unat (mi_permute cfg x) div 2 ^ (64 - ?sb)"
    by (subst unat_drop_bit_eq) (simp add: drop_bit_eq_div)
  ultimately show ?thesis
    by (simp only: get_bucket_id_def)
qed

lemma same_high_bits:
  "drop_bit m (a::'a::len word) = drop_bit m b \<Longrightarrow> m \<le> j \<Longrightarrow> bit a j = bit b j"
proof -
  assume e: "drop_bit m a = drop_bit m b" and j: "m \<le> j"
  have "bit (drop_bit m a) (j - m) = bit (drop_bit m b) (j - m)"
    using e by simp
  then show ?thesis
    using j by (simp add: bit_drop_bit_eq)
qed

lemma rebuild_from_low:
  "drop_bit m (a::'a::len word) = drop_bit m b \<Longrightarrow> (a AND mask m) OR push_bit m (drop_bit m b) = a"
proof -
  assume e: "drop_bit m a = drop_bit m b"
  show ?thesis
    unfolding e[symmetric]
  proof (rule bit_eqI)
    fix j
    show "bit (a AND mask m OR push_bit m (drop_bit m a)) j = bit a j"
      using bit_imp_le_length[of a j]
      by (cases "m \<le> j")
        (auto simp: bit_or_iff bit_and_iff bit_mask_iff bit_push_bit_iff bit_drop_bit_eq)
  qed
qed

lemma low_xor_eq:
  "drop_bit m (a::'a::len word) = drop_bit m b \<Longrightarrow> (b AND mask m) XOR (a AND mask m) = b XOR a"
proof -
  assume e: "drop_bit m a = drop_bit m b"
  show ?thesis
  proof (rule bit_eqI)
    fix j
    show "bit (b AND mask m XOR a AND mask m) j = bit (b XOR a) j"
      using same_high_bits[OF e, of j] bit_imp_le_length[of a j] bit_imp_le_length[of b j]
      by (cases "m \<le> j") (auto simp: bit_xor_iff bit_and_iff bit_mask_iff)
  qed
qed

lemma perm_inv: "bit_permutation cfg \<Longrightarrow> mi_rev_permute cfg (mi_permute cfg x) = x"
  by (simp add: bit_permutation_def)

lemma perm_xor:
  "bit_permutation cfg \<Longrightarrow> mi_permute cfg x XOR mi_permute cfg y = mi_permute cfg (x XOR y)"
  by (simp add: bit_permutation_def)

lemma perm_cnt: "bit_permutation cfg \<Longrightarrow> cnt (mi_permute cfg x) = cnt x"
  by (simp add: bit_permutation_def)

lemma perm_distance:
  "bit_permutation cfg \<Longrightarrow> cnt (mi_permute cfg q XOR mi_permute cfg x) = cnt (q XOR x)"
  by (simp add: perm_xor perm_cnt)

lemma simple_scan_eq:
  "l \<le> r \<Longrightarrow> r \<le> length es \<Longrightarrow>
   simple_scan rp es p msk k l r res
     = Inr (res @ map (\<lambda>e. rp (e OR msk)) (filter (\<lambda>e. cnt (p XOR e) \<le> k) (slice es l r)))"
proof (induction "r - l" arbitrary: l res)
  case 0
  then show ?case by (simp add: slice_def simple_scan.simps)
next
  case (Suc d)
  then have lr: "l < r" "l < length es" by auto
  have d: "d = r - Suc l" using Suc.hyps(2) by simp
  have rl: "r - l = Suc (r - Suc l)" using lr by simp
  have s: "slice es l r = es ! l # slice es (Suc l) r"
    using lr unfolding slice_def rl
    by (simp add: Cons_nth_drop_Suc[symmetric])
  have l1: "Suc l \<le> r" using lr by simp
  have ih: "simple_scan rp es p msk k (Suc l) r res'
      = Inr (res' @ map (\<lambda>e. rp (e OR msk)) (filter (\<lambda>e. cnt (p XOR e) \<le> k) (slice es (Suc l) r)))"
    for res'
    using Suc.hyps(1)[OF d l1 Suc.prems(2)] .
  show ?case
    using lr by (subst simple_scan.simps) (simp add: ih s)
qed

section \<open>The simple index: what build and match compute\<close>

definition simple_wf :: "perm_family \<Rightarrow> bool" where
  "simple_wf cfg \<longleftrightarrow> 1 \<le> splitter_bits cfg \<and> splitter_bits cfg \<le> 63"

definition simple_bid :: "perm_family \<Rightarrow> u64 \<Rightarrow> nat" where
  "simple_bid cfg x = unat (get_bucket_id cfg x)"

lemma simple_bid_range: "simple_wf cfg \<Longrightarrow> simple_bid cfg x < 2 ^ splitter_bits cfg"
  unfolding simple_bid_def simple_wf_def by (intro simple_bucket_range) simp_all

lemma simple_build_eq:
  assumes wf: "simple_wf cfg" and small: "length xs + 2 ^ splitter_bits cfg < 2 ^ 64"
  shows "simple_build cfg xs =
     Inr \<lparr>m_n = length xs,
          m_entries = sorted_store (simple_bid cfg) (simple_payload cfg) xs 0 (2 ^ splitter_bits cfg),
          m_C = pattern (map (cntb (simple_bid cfg) xs) [0..<2 ^ splitter_bits cfg]),
          m_C_sel = Sel (pattern (map (cntb (simple_bid cfg) xs) [0..<2 ^ splitter_bits cfg]))\<rparr>"
proof -
  let ?U = "2 ^ splitter_bits cfg :: nat"
  let ?bid = "simple_bid cfg"
  have bids: "\<forall>x\<in>set xs. ?bid x < ?U"
    using simple_bid_range[OF wf] by simp
  have bid: "(\<lambda>x. unat (get_bucket_id cfg x)) = ?bid"
    by (simp add: simple_bid_def[abs_def])
  obtain ps' where pl: "place ?bid (simple_payload cfg) xs (map (\<lambda>b. offs ?bid xs b + b) [0..<?U + 1])
      (replicate (length xs) 0) = Inr (ps', sorted_store ?bid (simple_payload cfg) xs 0 ?U)"
    using place_eq[OF bids small, where pay = "simple_payload cfg" and z = 0] by blast
  show ?thesis
    unfolding simple_build_def Let_def bid
    by (simp only: hist_eq[OF bids] cursors_eq build_C_eq[OF bids] pl sum.case prod.case)
qed

lemma of_nat_diff_word: "(word_of_nat (a + c) :: u64) - word_of_nat a = word_of_nat c"
  by simp

lemma simple_match_eq:
  assumes wf: "simple_wf cfg" and small: "length xs + 2 ^ splitter_bits cfg < 2 ^ 64"
    and perm: "bit_permutation cfg"
    and build: "simple_build cfg xs = Inr idx"
  shows "simple_match cfg idx q k find_only_candidates =
     Inr (if find_only_candidates then []
          else filter (\<lambda>x. get_bucket_id cfg x = get_bucket_id cfg q \<and> cnt (q XOR x) \<le> k) xs,
          word_of_nat (cntb (simple_bid cfg) xs (simple_bid cfg q)))"
proof -
  let ?U = "2 ^ splitter_bits cfg :: nat"
  let ?bid = "simple_bid cfg"
  let ?b = "?bid q"
  let ?m = "64 - splitter_bits cfg"
  let ?C = "pattern (map (cntb ?bid xs) [0..<?U])"
  let ?es = "sorted_store ?bid (simple_payload cfg) xs 0 ?U"
  have bids: "\<forall>x\<in>set xs. ?bid x < ?U"
    using simple_bid_range[OF wf] by simp
  have b: "?b < ?U" using simple_bid_range[OF wf] .
  have tot: "offs ?bid xs ?U = length xs" using offs_total[OF bids] .
  have small': "offs ?bid xs ?U + ?U < 2 ^ 64" using small tot by simp
  from build have idx: "m_C_sel idx = Sel ?C" "m_entries idx = ?es"
    unfolding simple_build_eq[OF wf small] by auto
  have l: "slice_left (Sel ?C) ?b = Some (offs ?bid xs ?b)"
    using b by (intro slice_left_eq[OF small']) simp
  have r: "slice_right (Sel ?C) ?b = Some (offs ?bid xs (Suc ?b))"
    using b by (intro slice_right_eq[OF small'])
  have cand: "(word_of_nat (offs ?bid xs (Suc ?b)) :: u64) - word_of_nat (offs ?bid xs ?b)
      = word_of_nat (cntb ?bid xs ?b)"
    by (simp add: offs_Suc)
  have le1: "offs ?bid xs ?b \<le> offs ?bid xs (Suc ?b)" by (simp add: offs_Suc)
  have le2: "offs ?bid xs (Suc ?b) \<le> length ?es"
    using b by (simp add: length_sorted_store offs_mono)
  have sl: "slice ?es (offs ?bid xs ?b) (offs ?bid xs (Suc ?b))
      = map (simple_payload cfg) (filter (\<lambda>x. ?bid x = ?b) xs)"
    using b slice_sorted_store[of ?b "Suc ?b" ?U ?bid "simple_payload cfg" xs]
    by (simp add: sorted_store_def bucket_entries_def)
  let ?p = "mi_permute cfg q AND mask ?m"
  let ?msk = "push_bit ?m (get_bucket_id cfg q)"
  have key: "map (\<lambda>e. mi_rev_permute cfg (e OR ?msk))
        (filter (\<lambda>e. cnt (?p XOR e) \<le> k) (map (simple_payload cfg) (filter (\<lambda>x. ?bid x = ?b) xs)))
      = filter (\<lambda>x. get_bucket_id cfg x = get_bucket_id cfg q \<and> cnt (q XOR x) \<le> k) xs"
  proof -
    have same: "mi_rev_permute cfg (simple_payload cfg x OR ?msk) = x
        \<and> (cnt (?p XOR simple_payload cfg x) \<le> k \<longleftrightarrow> cnt (q XOR x) \<le> k)"
      if "?bid x = ?b" for x
    proof -
      from that have e: "drop_bit ?m (mi_permute cfg x) = drop_bit ?m (mi_permute cfg q)"
        by (simp add: simple_bid_def get_bucket_id_def word_unat_eq_iff)
      have "simple_payload cfg x OR ?msk = mi_permute cfg x"
        unfolding simple_payload_def get_bucket_id_def using rebuild_from_low[OF e] .
      moreover have "?p XOR simple_payload cfg x = mi_permute cfg q XOR mi_permute cfg x"
        unfolding simple_payload_def using low_xor_eq[OF e] .
      ultimately show ?thesis
        using perm by (simp add: perm_inv perm_distance)
    qed
    have bq: "(?bid x = ?b) = (get_bucket_id cfg x = get_bucket_id cfg q)" for x
      by (simp add: simple_bid_def word_unat_eq_iff)
    have "map (\<lambda>e. mi_rev_permute cfg (e OR ?msk))
        (filter (\<lambda>e. cnt (?p XOR e) \<le> k) (map (simple_payload cfg) (filter (\<lambda>x. ?bid x = ?b) xs)))
      = map (\<lambda>x. mi_rev_permute cfg (simple_payload cfg x OR ?msk))
          (filter (\<lambda>x. cnt (?p XOR simple_payload cfg x) \<le> k) (filter (\<lambda>x. ?bid x = ?b) xs))"
      by (simp add: filter_map comp_def)
    also have "\<dots> = map (\<lambda>x. x) (filter (\<lambda>x. cnt (q XOR x) \<le> k) (filter (\<lambda>x. ?bid x = ?b) xs))"
      using same by (intro map_cong filter_cong) auto
    also have "\<dots> = filter (\<lambda>x. get_bucket_id cfg x = get_bucket_id cfg q \<and> cnt (q XOR x) \<le> k) xs"
      by (simp add: bq conj_commute)
    finally show ?thesis .
  qed
  have scan: "simple_scan (mi_rev_permute cfg) ?es ?p ?msk k (offs ?bid xs ?b) (offs ?bid xs (Suc ?b)) []
      = Inr (filter (\<lambda>x. get_bucket_id cfg x = get_bucket_id cfg q \<and> cnt (q XOR x) \<le> k) xs)"
    unfolding simple_scan_eq[OF le1 le2] sl key by simp
  show ?thesis
    unfolding simple_match_def Let_def idx
    using l r scan cand by (simp add: simple_bid_def)
qed

section \<open>The triangle index: bucket ids and what build computes\<close>

definition tri_wf :: "perm_family \<Rightarrow> bool" where
  "tri_wf cfg \<longleftrightarrow> 7 \<le> splitter_bits cfg \<and> splitter_bits cfg \<le> 38"

definition tri_bid :: "perm_family \<Rightarrow> u64 \<Rightarrow> nat" where
  "tri_bid cfg x = unat (tri_bucket_id cfg x)"

lemma low_mask_eq: "low_mask = mask 32"
  by (simp add: low_mask_def low_bits_def mask_eq_exp_minus_1)

lemma mid_mask_eq: "mid_mask cfg = mask (mid_bits cfg)"
  by (simp add: mid_mask_def mask_eq_exp_minus_1)

lemma tri_wf_bits:
  assumes "tri_wf cfg"
  shows "mid_bits cfg = 38 - splitter_bits cfg" "high_shift cfg = 32 + mid_bits cfg"
    "64 - (splitter_bits cfg - distance_bits) = high_shift cfg" "mid_bits cfg \<le> 31"
    "high_shift cfg \<le> 63"
  using assms by (auto simp: tri_wf_def mid_bits_def high_shift_def distance_bits_def low_bits_def)

lemma unat_less_if_bits:
  assumes "\<And>j. bit (w::u64) j \<Longrightarrow> j < n"
  shows "unat w < 2 ^ n"
proof -
  have "take_bit n w = w"
    by (rule bit_eqI) (auto simp: bit_take_bit_iff assms)
  then have "unat w = take_bit n (unat w)"
    by (metis unsigned_take_bit_eq)
  then show ?thesis
    by (metis take_bit_nat_less_exp)
qed

lemma bit_of_nat_small: "bit (word_of_nat c :: u64) j \<Longrightarrow> c < 2 ^ n \<Longrightarrow> j < n"
proof (rule ccontr)
  assume b: "bit (word_of_nat c :: u64) j" and c: "c < 2 ^ n" and "\<not> j < n"
  then have "(2::nat) ^ n \<le> 2 ^ j" by (simp add: power_increasing)
  with c have "c < 2 ^ j" by (rule less_le_trans)
  then have "c div 2 ^ j = 0" by simp
  moreover from b have "bit c j" by (simp add: bit_of_nat_iff)
  ultimately show False by (simp add: bit_iff_odd)
qed

lemma cnt_le_length: "cnt (w::'a::len word) \<le> LENGTH('a)"
  unfolding cnt_def using length_filter_le[of "bit w" "[0..<LENGTH('a)]"] by simp

lemma bucket_word_range:
  assumes wf: "7 \<le> splitter_bits cfg" "splitter_bits cfg \<le> 64" and c: "c \<le> 64"
  shows "unat (push_bit distance_bits (high_prefix cfg x) OR word_of_nat c) < 2 ^ splitter_bits cfg"
proof (rule unat_less_if_bits)
  fix j
  assume "bit (push_bit distance_bits (high_prefix cfg x) OR (word_of_nat c :: u64)) j"
  then consider "bit (push_bit distance_bits (high_prefix cfg x)) j" | "bit (word_of_nat c :: u64) j"
    by (auto simp: bit_or_iff)
  then show "j < splitter_bits cfg"
  proof cases
    case 1
    then have "6 \<le> j" and "bit (mi_permute cfg x) (64 - (splitter_bits cfg - 6) + (j - 6))"
      by (auto simp: bit_push_bit_iff high_prefix_def distance_bits_def bit_drop_bit_eq)
    then have "64 - (splitter_bits cfg - 6) + (j - 6) < 64"
      using bit_imp_le_length[of "mi_permute cfg x"] by fastforce
    with wf \<open>6 \<le> j\<close> show ?thesis by simp
  next
    case 2
    have "c < 2 ^ 7" using c by simp
    from bit_of_nat_small[OF 2 this] wf show ?thesis by simp
  qed
qed

lemma tri_bid_range: "tri_wf cfg \<Longrightarrow> tri_bid cfg x < 2 ^ splitter_bits cfg"
  unfolding tri_bid_def tri_bucket_id_def Let_def tri_wf_def
  using cnt_le_length[of x] by (intro bucket_word_range) simp_all

lemma bucket_right_range: "tri_wf cfg \<Longrightarrow> unat (get_bucket_right cfg x k) < 2 ^ splitter_bits cfg"
  unfolding get_bucket_right_def Let_def tri_wf_def
  by (intro bucket_word_range) simp_all

lemma bucket_left_range: "tri_wf cfg \<Longrightarrow> unat (get_bucket_left cfg x k) < 2 ^ splitter_bits cfg"
  unfolding get_bucket_left_def Let_def tri_wf_def
  using cnt_le_length[of x] by (intro bucket_word_range) auto


lemma place2_place:
  "length ls = length ms \<Longrightarrow>
   place2 bid lo mi xs ps ls ms
     = (case place bid (\<lambda>x. (lo x, mi x)) xs ps (zip ls ms) of
          Inl e \<Rightarrow> Inl e
        | Inr (ps', es) \<Rightarrow> Inr (ps', map fst es, map snd es))"
proof (induction xs arbitrary: ps ls ms)
  case Nil
  then show ?case by simp
next
  case (Cons x xs)
  let ?i = "sub64 (ps ! bid x) (bid x)"
  have z: "(zip ls ms)[?i := (lo x, mi x)] = zip (ls[?i := lo x]) (ms[?i := mi x])"
    by (simp add: update_zip)
  have l: "length (ls[?i := lo x]) = length (ms[?i := mi x])"
    using Cons.prems by simp
  show ?case
    using Cons.prems by (simp add: Let_def z Cons.IH[OF l])
qed

lemma map_sorted_store:
  "map f (sorted_store bid pay xs a b) = sorted_store bid (\<lambda>x. f (pay x)) xs a b"
  by (simp add: sorted_store_def bucket_entries_def[abs_def] map_concat comp_def)

definition tri_low :: "perm_family \<Rightarrow> u64 \<Rightarrow> u32" where
  "tri_low cfg x = ucast (low_xor cfg (mi_permute cfg x))"

definition tri_mid :: "perm_family \<Rightarrow> u64 \<Rightarrow> u64" where
  "tri_mid cfg x = mid_item cfg (mi_permute cfg x)"

lemma triangle_build_eq:
  assumes wf: "tri_wf cfg" and small: "length xs + 2 ^ splitter_bits cfg < 2 ^ 64"
  shows "triangle_build cfg xs =
     Inr \<lparr>t_n = length xs,
          m_low_entries = sorted_store (tri_bid cfg) (tri_low cfg) xs 0 (2 ^ splitter_bits cfg),
          m_mid_entries = sorted_store (tri_bid cfg) (tri_mid cfg) xs 0 (2 ^ splitter_bits cfg),
          t_C = pattern (map (cntb (tri_bid cfg) xs) [0..<2 ^ splitter_bits cfg]),
          t_C_sel = Sel (pattern (map (cntb (tri_bid cfg) xs) [0..<2 ^ splitter_bits cfg]))\<rparr>"
proof -
  let ?U = "2 ^ splitter_bits cfg :: nat"
  let ?bid = "tri_bid cfg"
  let ?pay = "\<lambda>x. (tri_low cfg x, tri_mid cfg x)"
  have bids: "\<forall>x\<in>set xs. ?bid x < ?U"
    using tri_bid_range[OF wf] by simp
  have bid: "(\<lambda>x. unat (tri_bucket_id cfg x)) = ?bid"
    by (simp add: tri_bid_def[abs_def])
  have lo: "(\<lambda>x. ucast (low_xor cfg (mi_permute cfg x))) = tri_low cfg"
    by (simp add: tri_low_def[abs_def])
  have mi: "(\<lambda>x. mid_item cfg (mi_permute cfg x)) = tri_mid cfg"
    by (simp add: tri_mid_def[abs_def])
  obtain ps' where pl: "place ?bid ?pay xs (map (\<lambda>b. offs ?bid xs b + b) [0..<?U + 1])
      (replicate (length xs) (0, 0)) = Inr (ps', sorted_store ?bid ?pay xs 0 ?U)"
    using place_eq[OF bids small, where pay = ?pay and z = "(0, 0)"] by blast
  have eq: "length (replicate (length xs) (0::u32)) = length (replicate (length xs) (0::u64))"
    by simp
  have z: "zip (replicate (length xs) (0::u32)) (replicate (length xs) (0::u64))
      = replicate (length xs) (0, 0)"
    by (simp add: zip_replicate)
  have pl2: "place2 ?bid (tri_low cfg) (tri_mid cfg) xs (map (\<lambda>b. offs ?bid xs b + b) [0..<?U + 1])
      (replicate (length xs) 0) (replicate (length xs) 0)
      = Inr (ps', sorted_store ?bid (tri_low cfg) xs 0 ?U, sorted_store ?bid (tri_mid cfg) xs 0 ?U)"
    by (simp only: place2_place[OF eq] z pl sum.case prod.case map_sorted_store fst_conv snd_conv)
  show ?thesis
    unfolding triangle_build_def Let_def bid lo mi
    by (simp only: hist_eq[OF bids] cursors_eq build_C_eq[OF bids] pl2 sum.case prod.case)
qed

section \<open>The bucket boundary vector as the builder writes it\<close>

lemma pattern_snoc: "pattern (cs @ [c]) = pattern cs @ replicate c False @ [True]"
  by (simp add: pattern_def)

lemma ones_pattern: "length (filter id (pattern cs)) = length cs"
  by (induction cs) (auto simp: pattern_Cons pattern_def)

lemma C_writes_facts:
  assumes bids: "\<forall>x\<in>set xs. bid x < U"
  defines "hist \<equiv> map (cntb bid xs) [0..<U + 1]"
  shows "length (C_writes hist 0) = length xs + U + 1"
    and "length (filter snd (C_writes hist 0)) = U + 1"
    and "last (C_writes hist 0) = (U + length xs, True)"
    and "\<forall>w\<in>set (butlast (C_writes hist 0)). fst w < U + length xs"
    and "length (filter id (build_C hist (U + length xs))) = U"
    and "length (build_C hist (U + length xs)) = U + length xs"
proof -
  let ?h = "map (cntb bid xs) [0..<U]"
  have h: "hist = ?h @ [0]"
    using cntb_out[OF bids] by (simp add: hist_def)
  have p: "pattern hist = pattern ?h @ [True]"
    unfolding h by (simp add: pattern_snoc)
  have len0: "length (pattern ?h) = U + length xs"
    using offs_total[OF bids] by (simp add: length_pattern offs_def)
  have len: "length (pattern hist) = length xs + U + 1"
    unfolding p using len0 by simp
  have w: "C_writes hist 0 = zip [0..<length xs + U + 1] (pattern hist)"
    using C_writes_zip[of hist 0] len by simp
  show "length (C_writes hist 0) = length xs + U + 1"
    unfolding w using len by simp
  have "map snd (C_writes hist 0) = pattern hist"
    unfolding w using len by (simp add: map_snd_zip)
  then have "length (filter id (map snd (C_writes hist 0))) = U + 1"
    by (simp add: ones_pattern hist_def)
  then show "length (filter snd (C_writes hist 0)) = U + 1"
    by (simp add: filter_map comp_def)
  have w2: "C_writes hist 0 = zip [0..<U + length xs] (pattern ?h) @ [(U + length xs, True)]"
    unfolding w p using len0
    by (simp add: zip_append add.commute)
  show "last (C_writes hist 0) = (U + length xs, True)"
    unfolding w2 by simp
  show "\<forall>w\<in>set (butlast (C_writes hist 0)). fst w < U + length xs"
    unfolding w2 by (auto dest: set_zip_leftD)
  have c: "build_C hist (U + length xs) = pattern ?h"
    unfolding hist_def by (rule build_C_eq[OF bids])
  show "length (filter id (build_C hist (U + length xs))) = U"
    unfolding c by (simp add: ones_pattern)
  show "length (build_C hist (U + length xs)) = U + length xs"
    unfolding c by (rule len0)
qed


definition example_family :: perm_family where
  "example_family =
     \<lparr>splitter_bits = 16, mi_permute = (\<lambda>x. x), mi_rev_permute = (\<lambda>x. x), t_k = 3\<rparr>"

lemma example_family_ok:
  "simple_wf example_family" "tri_wf example_family" "bit_permutation example_family"
  by (simp_all add: example_family_def simple_wf_def tri_wf_def bit_permutation_def)

definition C_loop_facts :: "nat \<Rightarrow> nat \<Rightarrow> nat list \<Rightarrow> bool list \<Rightarrow> bool" where
  "C_loop_facts U n hist C \<longleftrightarrow>
     length hist = U + 1 \<and>
     length (C_writes hist 0) = n + U + 1 \<and>
     length (filter snd (C_writes hist 0)) = U + 1 \<and>
     last (C_writes hist 0) = (U + n, True) \<and>
     length C = U + n \<and>
     \<not> fst (last (C_writes hist 0)) < length C \<and>
     (\<forall>w\<in>set (butlast (C_writes hist 0)). fst w < length C) \<and>
     C = build_C hist (U + n) \<and>
     length (filter id C) = U"

lemma C_loop_facts_hist:
  assumes bids: "\<forall>x\<in>set xs. bid x < U"
  shows "C_loop_facts U (length xs) (map (cntb bid xs) [0..<U + 1])
           (pattern (map (cntb bid xs) [0..<U]))"
  unfolding C_loop_facts_def build_C_eq[OF bids, symmetric]
  using C_writes_facts[OF bids] by simp

text \<open>
  C10. In both builders the loop that fills \<open>m_C\<close> runs over all \<open>2^splitter_bits + 1\<close>
  elements of \<open>prefix_sums\<close>, the sentinel included, and writes a one-bit after the zeros
  of each: \<open>n + 2^splitter_bits + 1\<close> writes in all, \<open>2^splitter_bits + 1\<close> of them
  one-bits, into a vector of length \<open>2^splitter_bits + n\<close>. The last write is at index
  \<open>2^splitter_bits + n\<close>, which is not below the length; every other write is in range, and
  the vector ends up with exactly \<open>2^splitter_bits\<close> ones. This holds for every input, the
  empty one included.
\<close>

theorem C_construction_writes_past_end:
  assumes "length xs + 2 ^ splitter_bits cfg < 2 ^ 64"
  shows "(simple_wf cfg \<longrightarrow>
           (\<exists>hist idx.
              histogram (\<lambda>x. unat (get_bucket_id cfg x)) xs (replicate (2 ^ splitter_bits cfg + 1) 0)
                = Inr hist \<and>
              simple_build cfg xs = Inr idx \<and>
              C_loop_facts (2 ^ splitter_bits cfg) (length xs) hist (m_C idx))) \<and>
         (tri_wf cfg \<longrightarrow>
           (\<exists>hist idx.
              histogram (\<lambda>x. unat (tri_bucket_id cfg x)) xs (replicate (2 ^ splitter_bits cfg + 1) 0)
                = Inr hist \<and>
              triangle_build cfg xs = Inr idx \<and>
              C_loop_facts (2 ^ splitter_bits cfg) (length xs) hist (t_C idx)))"
proof (intro conjI impI)
  assume wf: "simple_wf cfg"
  let ?U = "2 ^ splitter_bits cfg :: nat"
  have bids: "\<forall>x\<in>set xs. simple_bid cfg x < ?U"
    using simple_bid_range[OF wf] by simp
  have bid: "(\<lambda>x. unat (get_bucket_id cfg x)) = simple_bid cfg"
    by (simp add: simple_bid_def[abs_def])
  show "\<exists>hist idx.
      histogram (\<lambda>x. unat (get_bucket_id cfg x)) xs (replicate (?U + 1) 0) = Inr hist \<and>
      simple_build cfg xs = Inr idx \<and> C_loop_facts ?U (length xs) hist (m_C idx)"
    unfolding bid hist_eq[OF bids] simple_build_eq[OF wf assms]
    using C_loop_facts_hist[OF bids] by simp
next
  assume wf: "tri_wf cfg"
  let ?U = "2 ^ splitter_bits cfg :: nat"
  have bids: "\<forall>x\<in>set xs. tri_bid cfg x < ?U"
    using tri_bid_range[OF wf] by simp
  have bid: "(\<lambda>x. unat (tri_bucket_id cfg x)) = tri_bid cfg"
    by (simp add: tri_bid_def[abs_def])
  show "\<exists>hist idx.
      histogram (\<lambda>x. unat (tri_bucket_id cfg x)) xs (replicate (?U + 1) 0) = Inr hist \<and>
      triangle_build cfg xs = Inr idx \<and> C_loop_facts ?U (length xs) hist (t_C idx)"
    unfolding bid hist_eq[OF bids] triangle_build_eq[OF wf assms]
    using C_loop_facts_hist[OF bids] by simp
qed

theorem C_construction_writes_past_end_witness:
  "(\<exists>hist idx.
      histogram (\<lambda>x. unat (get_bucket_id example_family x)) [] (replicate (2 ^ 16 + 1) 0) = Inr hist \<and>
      simple_build example_family [] = Inr idx \<and>
      C_loop_facts (2 ^ 16) 0 hist (m_C idx)) \<and>
   (\<exists>hist idx.
      histogram (\<lambda>x. unat (tri_bucket_id example_family x)) [] (replicate (2 ^ 16 + 1) 0) = Inr hist \<and>
      triangle_build example_family [] = Inr idx \<and>
      C_loop_facts (2 ^ 16) 0 hist (t_C idx))"
proof -
  have s: "splitter_bits example_family = 16" by (simp add: example_family_def)
  have "length ([]::u64 list) + 2 ^ splitter_bits example_family < 2 ^ 64"
    by (simp add: s)
  from C_construction_writes_past_end[OF this] example_family_ok show ?thesis
    unfolding s by simp
qed

section \<open>Bucket ids and bucket slices\<close>

text \<open>
  C6. Every bucket id is below \<open>2^splitter_bits\<close>: the simple id for every key, and for the
  triangle index the id of every key (a key with 64 one-bits included) and the left and
  right bucket of every query and bound (the right bucket with the cardinality clamped to
  64 included). Hence the histogram loop and the placement loop of both builders never
  index out of range: both builders return an index.
\<close>

theorem bucket_ids_in_range:
  assumes "length xs + 2 ^ splitter_bits cfg < 2 ^ 64"
  shows "(simple_wf cfg \<longrightarrow>
           unat (get_bucket_id cfg x) < 2 ^ splitter_bits cfg \<and>
           (\<exists>hist. histogram (\<lambda>x. unat (get_bucket_id cfg x)) xs
                      (replicate (2 ^ splitter_bits cfg + 1) 0) = Inr hist) \<and>
           (\<exists>idx. simple_build cfg xs = Inr idx)) \<and>
         (tri_wf cfg \<longrightarrow>
           unat (tri_bucket_id cfg x) < 2 ^ splitter_bits cfg \<and>
           unat (get_bucket_left cfg x k) < 2 ^ splitter_bits cfg \<and>
           unat (get_bucket_right cfg x k) < 2 ^ splitter_bits cfg \<and>
           (\<exists>hist. histogram (\<lambda>x. unat (tri_bucket_id cfg x)) xs
                      (replicate (2 ^ splitter_bits cfg + 1) 0) = Inr hist) \<and>
           (\<exists>idx. triangle_build cfg xs = Inr idx))"
proof (intro conjI impI)
  assume wf: "simple_wf cfg"
  have bids: "\<forall>x\<in>set xs. simple_bid cfg x < 2 ^ splitter_bits cfg"
    using simple_bid_range[OF wf] by simp
  show "unat (get_bucket_id cfg x) < 2 ^ splitter_bits cfg"
    using simple_bid_range[OF wf, of x] by (simp add: simple_bid_def)
  show "\<exists>hist. histogram (\<lambda>x. unat (get_bucket_id cfg x)) xs
      (replicate (2 ^ splitter_bits cfg + 1) 0) = Inr hist"
    using hist_eq[OF bids] by (simp add: simple_bid_def[abs_def])
  show "\<exists>idx. simple_build cfg xs = Inr idx"
    using simple_build_eq[OF wf assms] by simp
next
  assume wf: "tri_wf cfg"
  have bids: "\<forall>x\<in>set xs. tri_bid cfg x < 2 ^ splitter_bits cfg"
    using tri_bid_range[OF wf] by simp
  show "unat (tri_bucket_id cfg x) < 2 ^ splitter_bits cfg"
    using tri_bid_range[OF wf, of x] by (simp add: tri_bid_def)
  show "unat (get_bucket_left cfg x k) < 2 ^ splitter_bits cfg"
    using wf by (rule bucket_left_range)
  show "unat (get_bucket_right cfg x k) < 2 ^ splitter_bits cfg"
    using wf by (rule bucket_right_range)
  show "\<exists>hist. histogram (\<lambda>x. unat (tri_bucket_id cfg x)) xs
      (replicate (2 ^ splitter_bits cfg + 1) 0) = Inr hist"
    using hist_eq[OF bids] by (simp add: tri_bid_def[abs_def])
  show "\<exists>idx. triangle_build cfg xs = Inr idx"
    using triangle_build_eq[OF wf assms] by simp
qed

theorem bucket_ids_in_range_witness:
  "(unat (get_bucket_id example_family (- 1)) < 2 ^ 16 \<and>
    (\<exists>hist. histogram (\<lambda>x. unat (get_bucket_id example_family x)) [- 1, 0, 5]
               (replicate (2 ^ 16 + 1) 0) = Inr hist) \<and>
    (\<exists>idx. simple_build example_family [- 1, 0, 5] = Inr idx)) \<and>
   (unat (tri_bucket_id example_family (- 1)) < 2 ^ 16 \<and>
    unat (get_bucket_left example_family (- 1) 3) < 2 ^ 16 \<and>
    unat (get_bucket_right example_family (- 1) 3) < 2 ^ 16 \<and>
    (\<exists>hist. histogram (\<lambda>x. unat (tri_bucket_id example_family x)) [- 1, 0, 5]
               (replicate (2 ^ 16 + 1) 0) = Inr hist) \<and>
    (\<exists>idx. triangle_build example_family [- 1, 0, 5] = Inr idx))"
proof -
  have s: "splitter_bits example_family = 16" by (simp add: example_family_def)
  have "length [- 1, 0, 5 :: u64] + 2 ^ splitter_bits example_family < 2 ^ 64"
    by (simp add: s)
  from bucket_ids_in_range[OF this, of "- 1" 3] example_family_ok show ?thesis
    unfolding s by blast
qed

text \<open>
  C3. After construction from any input, the bounds \<open>l\<close> and \<open>r\<close> that \<open>match\<close> computes
  from the select support delimit the entries of the buckets asked for. In the simple
  index, for every bucket \<open>b\<close> the entries at \<open>[l, r)\<close> are the payloads of exactly the keys
  whose bucket id is \<open>b\<close> (in input order), and the whole store is laid out in bucket-id
  order. In the triangle index, for every range of buckets \<open>b_left \<le> b_right\<close>, taking
  \<open>l\<close> from \<open>b_left\<close> and \<open>r\<close> from \<open>b_right\<close> delimits, in the low and in the mid entries,
  the payloads of exactly the keys whose bucket id lies in the range.
\<close>

theorem bucket_slice_contract:
  assumes "length xs + 2 ^ splitter_bits cfg < 2 ^ 64"
  shows "(simple_wf cfg \<longrightarrow>
           (\<exists>idx. simple_build cfg xs = Inr idx \<and>
              m_entries idx = sorted_store (simple_bid cfg) (simple_payload cfg) xs 0 (2 ^ splitter_bits cfg) \<and>
              (\<forall>b < 2 ^ splitter_bits cfg. \<exists>l r.
                 slice_left (m_C_sel idx) b = Some l \<and> slice_right (m_C_sel idx) b = Some r \<and>
                 l \<le> r \<and> r \<le> length (m_entries idx) \<and>
                 slice (m_entries idx) l r
                   = map (simple_payload cfg) (filter (\<lambda>x. unat (get_bucket_id cfg x) = b) xs)))) \<and>
         (tri_wf cfg \<longrightarrow>
           (\<exists>idx. triangle_build cfg xs = Inr idx \<and>
              (\<forall>bl br. bl \<le> br \<and> br < 2 ^ splitter_bits cfg \<longrightarrow> (\<exists>l r.
                 slice_left (t_C_sel idx) bl = Some l \<and> slice_right (t_C_sel idx) br = Some r \<and>
                 l \<le> r \<and> r \<le> length (m_low_entries idx) \<and> r \<le> length (m_mid_entries idx) \<and>
                 slice (m_low_entries idx) l r
                   = concat (map (\<lambda>b. map (tri_low cfg) (filter (\<lambda>x. unat (tri_bucket_id cfg x) = b) xs))
                       [bl..<br + 1]) \<and>
                 slice (m_mid_entries idx) l r
                   = concat (map (\<lambda>b. map (tri_mid cfg) (filter (\<lambda>x. unat (tri_bucket_id cfg x) = b) xs))
                       [bl..<br + 1])))))"
proof (intro conjI impI)
  assume wf: "simple_wf cfg"
  let ?U = "2 ^ splitter_bits cfg :: nat"
  let ?bid = "simple_bid cfg"
  let ?C = "pattern (map (cntb ?bid xs) [0..<?U])"
  let ?es = "sorted_store ?bid (simple_payload cfg) xs 0 ?U"
  have bids: "\<forall>x\<in>set xs. ?bid x < ?U"
    using simple_bid_range[OF wf] by simp
  have tot: "offs ?bid xs ?U = length xs" using offs_total[OF bids] .
  have small': "offs ?bid xs ?U + ?U < 2 ^ 64" using assms tot by simp
  have "\<exists>l r. slice_left (Sel ?C) b = Some l \<and> slice_right (Sel ?C) b = Some r \<and>
      l \<le> r \<and> r \<le> length ?es \<and>
      slice ?es l r = map (simple_payload cfg) (filter (\<lambda>x. unat (get_bucket_id cfg x) = b) xs)"
    if b: "b < ?U" for b
  proof (intro exI conjI)
    show "slice_left (Sel ?C) b = Some (offs ?bid xs b)"
      using b by (intro slice_left_eq[OF small']) simp
    show "slice_right (Sel ?C) b = Some (offs ?bid xs (Suc b))"
      using b by (intro slice_right_eq[OF small'])
    show "offs ?bid xs b \<le> offs ?bid xs (Suc b)" by (simp add: offs_Suc)
    show "offs ?bid xs (Suc b) \<le> length ?es"
      using b by (simp add: length_sorted_store offs_mono)
    show "slice ?es (offs ?bid xs b) (offs ?bid xs (Suc b))
        = map (simple_payload cfg) (filter (\<lambda>x. unat (get_bucket_id cfg x) = b) xs)"
      using b slice_sorted_store[of b "Suc b" ?U ?bid "simple_payload cfg" xs]
      by (simp add: sorted_store_def bucket_entries_def simple_bid_def)
  qed
  then show "\<exists>idx. simple_build cfg xs = Inr idx \<and>
      m_entries idx = sorted_store (simple_bid cfg) (simple_payload cfg) xs 0 ?U \<and>
      (\<forall>b < ?U. \<exists>l r.
         slice_left (m_C_sel idx) b = Some l \<and> slice_right (m_C_sel idx) b = Some r \<and>
         l \<le> r \<and> r \<le> length (m_entries idx) \<and>
         slice (m_entries idx) l r
           = map (simple_payload cfg) (filter (\<lambda>x. unat (get_bucket_id cfg x) = b) xs))"
    unfolding simple_build_eq[OF wf assms] by simp
next
  assume wf: "tri_wf cfg"
  let ?U = "2 ^ splitter_bits cfg :: nat"
  let ?bid = "tri_bid cfg"
  let ?C = "pattern (map (cntb ?bid xs) [0..<?U])"
  let ?ls = "sorted_store ?bid (tri_low cfg) xs 0 ?U"
  let ?ms = "sorted_store ?bid (tri_mid cfg) xs 0 ?U"
  have bids: "\<forall>x\<in>set xs. ?bid x < ?U"
    using tri_bid_range[OF wf] by simp
  have tot: "offs ?bid xs ?U = length xs" using offs_total[OF bids] .
  have small': "offs ?bid xs ?U + ?U < 2 ^ 64" using assms tot by simp
  have "\<exists>l r. slice_left (Sel ?C) bl = Some l \<and> slice_right (Sel ?C) br = Some r \<and>
      l \<le> r \<and> r \<le> length ?ls \<and> r \<le> length ?ms \<and>
      slice ?ls l r
        = concat (map (\<lambda>b. map (tri_low cfg) (filter (\<lambda>x. unat (tri_bucket_id cfg x) = b) xs))
            [bl..<br + 1]) \<and>
      slice ?ms l r
        = concat (map (\<lambda>b. map (tri_mid cfg) (filter (\<lambda>x. unat (tri_bucket_id cfg x) = b) xs))
            [bl..<br + 1])"
    if b: "bl \<le> br \<and> br < ?U" for bl br
  proof (intro exI conjI)
    show "slice_left (Sel ?C) bl = Some (offs ?bid xs bl)"
      using b by (intro slice_left_eq[OF small']) simp
    show "slice_right (Sel ?C) br = Some (offs ?bid xs (Suc br))"
      using b by (intro slice_right_eq[OF small']) simp
    show "offs ?bid xs bl \<le> offs ?bid xs (Suc br)"
      using b by (intro offs_mono) simp
    show "offs ?bid xs (Suc br) \<le> length ?ls"
      using b by (simp add: length_sorted_store offs_mono)
    show "offs ?bid xs (Suc br) \<le> length ?ms"
      using b by (simp add: length_sorted_store offs_mono)
    show "slice ?ls (offs ?bid xs bl) (offs ?bid xs (Suc br))
        = concat (map (\<lambda>b. map (tri_low cfg) (filter (\<lambda>x. unat (tri_bucket_id cfg x) = b) xs))
            [bl..<br + 1])"
      using b slice_sorted_store[of bl "Suc br" ?U ?bid "tri_low cfg" xs]
      by (simp add: sorted_store_def bucket_entries_def[abs_def] tri_bid_def)
    show "slice ?ms (offs ?bid xs bl) (offs ?bid xs (Suc br))
        = concat (map (\<lambda>b. map (tri_mid cfg) (filter (\<lambda>x. unat (tri_bucket_id cfg x) = b) xs))
            [bl..<br + 1])"
      using b slice_sorted_store[of bl "Suc br" ?U ?bid "tri_mid cfg" xs]
      by (simp add: sorted_store_def bucket_entries_def[abs_def] tri_bid_def)
  qed
  then show "\<exists>idx. triangle_build cfg xs = Inr idx \<and>
      (\<forall>bl br. bl \<le> br \<and> br < ?U \<longrightarrow> (\<exists>l r.
         slice_left (t_C_sel idx) bl = Some l \<and> slice_right (t_C_sel idx) br = Some r \<and>
         l \<le> r \<and> r \<le> length (m_low_entries idx) \<and> r \<le> length (m_mid_entries idx) \<and>
         slice (m_low_entries idx) l r
           = concat (map (\<lambda>b. map (tri_low cfg) (filter (\<lambda>x. unat (tri_bucket_id cfg x) = b) xs))
               [bl..<br + 1]) \<and>
         slice (m_mid_entries idx) l r
           = concat (map (\<lambda>b. map (tri_mid cfg) (filter (\<lambda>x. unat (tri_bucket_id cfg x) = b) xs))
               [bl..<br + 1])))"
    unfolding triangle_build_eq[OF wf assms] by simp
qed


theorem bucket_slice_contract_witness:
  "(\<exists>idx l r. simple_build example_family [- 1, 0, 5] = Inr idx \<and>
      slice_left (m_C_sel idx) 0 = Some l \<and> slice_right (m_C_sel idx) 0 = Some r \<and>
      l \<le> r \<and> r \<le> length (m_entries idx) \<and>
      slice (m_entries idx) l r
        = map (simple_payload example_family)
            (filter (\<lambda>x. unat (get_bucket_id example_family x) = 0) [- 1, 0, 5])) \<and>
   (\<exists>idx l r. triangle_build example_family [- 1, 0, 5] = Inr idx \<and>
      slice_left (t_C_sel idx) 0 = Some l \<and> slice_right (t_C_sel idx) 3 = Some r \<and>
      l \<le> r \<and> r \<le> length (m_low_entries idx) \<and> r \<le> length (m_mid_entries idx) \<and>
      slice (m_low_entries idx) l r
        = concat (map (\<lambda>b. map (tri_low example_family)
                     (filter (\<lambda>x. unat (tri_bucket_id example_family x) = b) [- 1, 0, 5]))
            [0..<3 + 1]) \<and>
      slice (m_mid_entries idx) l r
        = concat (map (\<lambda>b. map (tri_mid example_family)
                     (filter (\<lambda>x. unat (tri_bucket_id example_family x) = b) [- 1, 0, 5]))
            [0..<3 + 1]))"
proof -
  have s: "splitter_bits example_family = 16" by (simp add: example_family_def)
  have "length [- 1, 0, 5 :: u64] + 2 ^ splitter_bits example_family < 2 ^ 64"
    by (simp add: s)
  note t = bucket_slice_contract[OF this, unfolded s]
  have b: "(0::nat) < 2 ^ 16" "(0::nat) \<le> 3 \<and> (3::nat) < 2 ^ 16" by simp_all
  from t example_family_ok(1) b(1) have "\<exists>idx l r. simple_build example_family [- 1, 0, 5] = Inr idx \<and>
      slice_left (m_C_sel idx) 0 = Some l \<and> slice_right (m_C_sel idx) 0 = Some r \<and>
      l \<le> r \<and> r \<le> length (m_entries idx) \<and>
      slice (m_entries idx) l r
        = map (simple_payload example_family)
            (filter (\<lambda>x. unat (get_bucket_id example_family x) = 0) [- 1, 0, 5])"
    by blast
  moreover from t example_family_ok(2) b(2)
  have "\<exists>idx l r. triangle_build example_family [- 1, 0, 5] = Inr idx \<and>
      slice_left (t_C_sel idx) 0 = Some l \<and> slice_right (t_C_sel idx) 3 = Some r \<and>
      l \<le> r \<and> r \<le> length (m_low_entries idx) \<and> r \<le> length (m_mid_entries idx) \<and>
      slice (m_low_entries idx) l r
        = concat (map (\<lambda>b. map (tri_low example_family)
                     (filter (\<lambda>x. unat (tri_bucket_id example_family x) = b) [- 1, 0, 5]))
            [0..<3 + 1]) \<and>
      slice (m_mid_entries idx) l r
        = concat (map (\<lambda>b. map (tri_mid example_family)
                     (filter (\<lambda>x. unat (tri_bucket_id example_family x) = b) [- 1, 0, 5]))
            [0..<3 + 1])"
    by blast
  ultimately show ?thesis by blast
qed

section \<open>The 32-bit filter\<close>

lemma cnt_fold32:
  fixes d :: u64 and f :: u32
  assumes "\<And>j. bit f j \<Longrightarrow> bit d j \<or> bit d (32 + j)"
  shows "cnt f \<le> cnt d"
proof -
  let ?A = "{j. j < 32 \<and> bit d j}"
  let ?B = "{j. j < 32 \<and> bit d (32 + j)}"
  have fin: "finite ?A" "finite ?B" by simp_all
  have "{j. bit f j} \<subseteq> ?A \<union> ?B"
    using assms bit_imp_le_length[of f] by fastforce
  then have "card {j. bit f j} \<le> card (?A \<union> ?B)"
    by (intro card_mono) (use fin in auto)
  also have "\<dots> \<le> card ?A + card ?B" by (rule card_Un_le)
  also have "card ?B = card ((+) 32 ` ?B)"
    by (simp add: card_image)
  also have "card ?A + card ((+) 32 ` ?B) = card (?A \<union> (+) 32 ` ?B)"
    by (intro card_Un_disjoint[symmetric]) (use fin in auto)
  also have "\<dots> \<le> card {i. bit d i}"
    by (intro card_mono) auto
  finally show ?thesis by (simp add: cnt_card)
qed

lemma bit_mid_item:
  "bit (mid_item cfg w) j \<longleftrightarrow> j < mid_bits cfg \<and> j < 64 \<and> bit w (32 + j)"
  using bit_imp_le_length[of w "32 + j"]
  by (auto simp: mid_item_def mid_mask_eq mid_shift_def low_bits_def bit_and_iff bit_mask_iff
      bit_drop_bit_eq)

lemma bit_low_item: "bit (low_item w) j \<longleftrightarrow> j < 32 \<and> bit w j"
  using bit_imp_le_length[of w j]
  by (auto simp: low_item_def low_mask_eq bit_and_iff bit_mask_iff)

definition filter32 :: "perm_family \<Rightarrow> u64 \<Rightarrow> u64 \<Rightarrow> u32" where
  "filter32 cfg q x =
     ucast (q_xor (query_parts_of cfg q) XOR ucast (tri_low cfg x))"

lemma filter32_le: "cnt (filter32 cfg q x) \<le> cnt (mi_permute cfg q XOR mi_permute cfg x)"
proof (rule cnt_fold32)
  fix j
  assume b: "bit (filter32 cfg q x) j"
  then have j: "j < 32" using bit_imp_le_length[of "filter32 cfg q x" j] by simp
  from b show "bit (mi_permute cfg q XOR mi_permute cfg x) j
      \<or> bit (mi_permute cfg q XOR mi_permute cfg x) (32 + j)"
    using j
    by (auto simp: filter32_def query_parts_of_def Let_def tri_low_def low_xor_def
        bit_ucast_iff bit_xor_iff bit_mid_item bit_low_item mid_item_def[symmetric])
qed

section \<open>The three loops of the triangle query against a scalar sweep\<close>

fun run_lanes :: "(nat \<Rightarrow> u64 list \<Rightarrow> error + u64 list) \<Rightarrow> (nat \<times> bool) list \<Rightarrow> u64 list
    \<Rightarrow> error + u64 list" where
  "run_lanes f [] res = Inr res"
| "run_lanes f (jp # ls) res =
     (case (if snd jp then f (fst jp) res else Inr res) of
        Inl e \<Rightarrow> Inl e
      | Inr res' \<Rightarrow> run_lanes f ls res')"

lemma upt4: "[0..<4] = [0, 1, 2, 3]"
  by (simp add: upt_rec)

lemma ffs_vals:
  "ffs 0x1 = 1" "ffs 0x10 = 5" "ffs 0x11 = 1" "ffs 0x100 = 9" "ffs 0x101 = 1" "ffs 0x110 = 5"
  "ffs 0x111 = 1" "ffs 0x1000 = 13" "ffs 0x1001 = 1" "ffs 0x1010 = 5" "ffs 0x1011 = 1"
  "ffs 0x1100 = 9" "ffs 0x1101 = 1" "ffs 0x1110 = 5" "ffs 0x1111 = 1"
  by code_simp+

lemma dispatch_lanes:
  "simd_dispatch f (movemask_epi8 [p0, p1, p2, p3] AND 0x1111) res
     = run_lanes f [(0, p0), (1, p1), (2, p2), (3, p3)] res"
  by (cases p0; cases p1; cases p2; cases p3)
     (simp_all add: movemask_epi8_def upt4 simd_dispatch.simps ffs_vals split: sum.splits)


text \<open>
  The scalar reference: the 32-bit filter on the whole 64-bit word followed by the full
  verification, applied to the entries at the given indices one after the other.
\<close>

fun scalar_sweep :: "perm_family \<Rightarrow> triangle_index \<Rightarrow> query_parts \<Rightarrow> nat \<Rightarrow> nat list \<Rightarrow> u64 list
    \<Rightarrow> error + u64 list" where
  "scalar_sweep cfg idx qs errors [] res = Inr res"
| "scalar_sweep cfg idx qs errors (i # js) res =
     (case epilogue_step cfg idx qs errors i res of
        Inl e \<Rightarrow> Inl e
      | Inr res' \<Rightarrow> scalar_sweep cfg idx qs errors js res')"

definition finish :: "perm_family \<Rightarrow> triangle_index \<Rightarrow> query_parts \<Rightarrow> nat \<Rightarrow> nat
    \<Rightarrow> nat \<times> u64 list \<times> nat list \<Rightarrow> error + (u64 list \<times> nat list)" where
  "finish cfg idx qs errors r st =
     (case st of (it, res, tr) \<Rightarrow>
        (case scalar_sweep cfg idx qs errors [it..<r] res of
           Inl e \<Rightarrow> Inl e
         | Inr res' \<Rightarrow> Inr (res', tr @ [it..<r])))"

lemma scalar_sweep_append:
  "scalar_sweep cfg idx qs k (as @ bs) res
     = (case scalar_sweep cfg idx qs k as res of
          Inl e \<Rightarrow> Inl e
        | Inr res' \<Rightarrow> scalar_sweep cfg idx qs k bs res')"
  by (induction as arbitrary: res) (auto split: sum.splits)

lemma finish_step:
  "it < r \<Longrightarrow>
   finish cfg idx qs k r (it, res, tr)
     = (case epilogue_step cfg idx qs k it res of
          Inl e \<Rightarrow> Inl e
        | Inr res' \<Rightarrow> finish cfg idx qs k r (Suc it, res', tr @ [it]))"
  by (simp add: finish_def upt_conv_Cons split: sum.splits)

lemma epilogue_finish:
  "it \<le> r \<Longrightarrow> r \<le> length (m_low_entries idx) \<Longrightarrow>
   epilogue cfg idx qs k it r res tr = finish cfg idx qs k r (it, res, tr)"
proof (induction "r - it" arbitrary: it res tr)
  case 0
  then show ?case by (simp add: epilogue.simps finish_def)
next
  case (Suc d)
  then have lt: "it < r" "it < length (m_low_entries idx)" by auto
  have ih: "epilogue cfg idx qs k (Suc it) r res' tr' = finish cfg idx qs k r (Suc it, res', tr')"
    for res' tr'
    using Suc.hyps(1)[of "Suc it"] Suc.hyps(2) Suc.prems lt by simp
  show ?case
    using lt by (subst epilogue.simps) (simp add: ih finish_step split: sum.splits)
qed

definition fits32 :: "u64 \<Rightarrow> bool" where
  "fits32 w \<longleftrightarrow> take_bit 32 w = w"

lemma fits32_bit: "fits32 w \<Longrightarrow> bit w j \<Longrightarrow> j < 32"
  unfolding fits32_def by (metis bit_take_bit_iff)

lemma cnt_ucast_fits32: "fits32 w \<Longrightarrow> cnt (ucast w :: u32) = cnt w"
proof -
  assume f: "fits32 w"
  have "{j. bit (ucast w :: u32) j} = {j. bit w j}"
    using fits32_bit[OF f] by (auto simp: bit_ucast_iff)
  then show ?thesis by (simp add: cnt_card)
qed

lemma fits32I: "(\<And>j. bit w j \<Longrightarrow> j < 32) \<Longrightarrow> fits32 w"
  unfolding fits32_def by (rule bit_eqI) (auto simp: bit_take_bit_iff)

lemma fits32_xor_ucast: "fits32 w \<Longrightarrow> fits32 (w XOR ucast (e::u32))"
proof (rule fits32I)
  fix j
  assume f: "fits32 w" and b: "bit (w XOR ucast e) j"
  then consider "bit w j" | "bit e j"
    by (auto simp: bit_xor_iff bit_ucast_iff)
  then show "j < 32"
  proof cases
    case 1
    with f show ?thesis by (rule fits32_bit)
  next
    case 2
    then show ?thesis using bit_imp_le_length[of e j] by simp
  qed
qed

lemma ucast_xor_ucast: "(ucast (w XOR ucast (e::u32)) :: u32) = e XOR ucast (w::u64)"
  by (rule bit_eqI) (auto simp: bit_ucast_iff bit_xor_iff dest: bit_imp_le_length)

lemma prologue_step_eq:
  "fits32 (q_xor qs) \<Longrightarrow> prologue_step cfg idx qs k it res = epilogue_step cfg idx qs k it res"
  by (simp add: prologue_step_def epilogue_step_def Let_def cnt_ucast_fits32 fits32_xor_ucast)

lemma lane_step_eq:
  "fits32 (q_xor qs) \<Longrightarrow> it < length (m_low_entries idx) \<Longrightarrow>
   (if cnt (m_low_entries idx ! it XOR ucast (q_xor qs)) < k + 1
    then verify cfg idx qs k it (ucast (m_low_entries idx ! it)) res else Inr res)
     = epilogue_step cfg idx qs k it res"
proof -
  assume f: "fits32 (q_xor qs)" and l: "it < length (m_low_entries idx)"
  let ?e = "m_low_entries idx ! it"
  have "cnt (?e XOR ucast (q_xor qs)) = cnt (ucast (q_xor qs XOR ucast ?e) :: u32)"
    by (simp add: ucast_xor_ucast)
  also have "\<dots> = cnt (q_xor qs XOR ucast ?e)"
    using f by (simp add: cnt_ucast_fits32 fits32_xor_ucast)
  finally show ?thesis
    using l by (simp add: epilogue_step_def Let_def less_Suc_eq_le)
qed

lemma prologue_finish:
  assumes f: "fits32 (q_xor qs)"
  shows "it \<le> r \<Longrightarrow> r \<le> length (m_low_entries idx) \<Longrightarrow>
     (case prologue cfg idx qs k base it r res tr of
        Inl e \<Rightarrow> finish cfg idx qs k r (it, res, tr) = Inl e
      | Inr st \<Rightarrow> fst st \<le> r \<and> finish cfg idx qs k r st = finish cfg idx qs k r (it, res, tr))"
proof (induction "r - it" arbitrary: it res tr)
  case 0
  then show ?case by (simp add: prologue.simps)
next
  case (Suc d)
  then have lt: "it < r" "it < length (m_low_entries idx)" by auto
  have ih: "case prologue cfg idx qs k base (Suc it) r res' tr' of
        Inl e \<Rightarrow> finish cfg idx qs k r (Suc it, res', tr') = Inl e
      | Inr st \<Rightarrow> fst st \<le> r \<and> finish cfg idx qs k r st = finish cfg idx qs k r (Suc it, res', tr')"
    for res' tr'
    using Suc.hyps(1)[of "Suc it"] Suc.hyps(2) Suc.prems lt by simp
  show ?case
  proof (cases "(base + 4 * it) mod 16 \<noteq> 0")
    case False
    then show ?thesis using lt by (simp add: prologue.simps)
  next
    case True
    show ?thesis
    proof (cases "epilogue_step cfg idx qs k it res")
      case (Inl e)
      then show ?thesis
        using True lt by (subst prologue.simps) (simp add: prologue_step_eq[OF f] finish_step)
    next
      case (Inr res')
      have fs: "finish cfg idx qs k r (it, res, tr) = finish cfg idx qs k r (Suc it, res', tr @ [it])"
        using finish_step[OF lt(1), of cfg idx qs k res tr] Inr by simp
      show ?thesis
        using True lt ih[of res' "tr @ [it]"] Inr
        by (subst prologue.simps) (auto simp: prologue_step_eq[OF f] fs split: sum.splits)
    qed
  qed
qed

lemma run_lanes_sweep:
  assumes f: "fits32 (q_xor qs)"
  shows "\<forall>j\<in>set js. it + j < length (m_low_entries idx) \<Longrightarrow>
     run_lanes (\<lambda>i. verify cfg idx qs k (it + i) (ucast (m_low_entries idx ! (it + i))))
       (map (\<lambda>j. (j, cnt (m_low_entries idx ! (it + j) XOR ucast (q_xor qs)) < k + 1)) js) res
     = scalar_sweep cfg idx qs k (map (\<lambda>j. it + j) js) res"
proof (induction js arbitrary: res)
  case Nil
  then show ?case by simp
next
  case (Cons j js)
  then have l: "it + j < length (m_low_entries idx)" by simp
  have ih: "run_lanes (\<lambda>i. verify cfg idx qs k (it + i) (ucast (m_low_entries idx ! (it + i))))
       (map (\<lambda>j. (j, cnt (m_low_entries idx ! (it + j) XOR ucast (q_xor qs)) < k + 1)) js) res'
     = scalar_sweep cfg idx qs k (map (\<lambda>j. it + j) js) res'" for res'
    using Cons by simp
  have eq: "(if cnt (m_low_entries idx ! (it + j) XOR ucast (q_xor qs)) < k + 1
         then verify cfg idx qs k (it + j) (ucast (m_low_entries idx ! (it + j))) res else Inr res)
      = epilogue_step cfg idx qs k (it + j) res"
    by (rule lane_step_eq[OF f l])
  have step: "run_lanes (\<lambda>i. verify cfg idx qs k (it + i) (ucast (m_low_entries idx ! (it + i))))
       (map (\<lambda>j. (j, cnt (m_low_entries idx ! (it + j) XOR ucast (q_xor qs)) < k + 1)) (j # js)) res
     = (case epilogue_step cfg idx qs k (it + j) res of
          Inl e \<Rightarrow> Inl e
        | Inr res' \<Rightarrow>
            run_lanes (\<lambda>i. verify cfg idx qs k (it + i) (ucast (m_low_entries idx ! (it + i))))
              (map (\<lambda>j. (j, cnt (m_low_entries idx ! (it + j) XOR ucast (q_xor qs)) < k + 1)) js) res')"
    by (simp only: list.map run_lanes.simps fst_conv snd_conv eq)
  show ?case
    unfolding step
    by (cases "epilogue_step cfg idx qs k (it + j) res") (use ih in simp_all)
qed

lemma simd_block:
  assumes f: "fits32 (q_xor qs)" and l: "it + 3 < length (m_low_entries idx)"
  shows "simd_dispatch (\<lambda>i. verify cfg idx qs k (it + i) (ucast (m_low_entries idx ! (it + i))))
           (lane_mask idx qs k it) res
       = scalar_sweep cfg idx qs k [it, it + 1, it + 2, it + 3] res"
proof -
  have m: "lane_mask idx qs k it
      = movemask_epi8
          [cnt (m_low_entries idx ! (it + 0) XOR ucast (q_xor qs)) < k + 1,
           cnt (m_low_entries idx ! (it + 1) XOR ucast (q_xor qs)) < k + 1,
           cnt (m_low_entries idx ! (it + 2) XOR ucast (q_xor qs)) < k + 1,
           cnt (m_low_entries idx ! (it + 3) XOR ucast (q_xor qs)) < k + 1] AND 0x1111"
    by (simp add: lane_mask_def Let_def upt4)
  have a: "\<forall>j\<in>set [0, 1, 2, 3]. it + j < length (m_low_entries idx)"
    using l by simp
  have "simd_dispatch (\<lambda>i. verify cfg idx qs k (it + i) (ucast (m_low_entries idx ! (it + i))))
           (lane_mask idx qs k it) res
      = run_lanes (\<lambda>i. verify cfg idx qs k (it + i) (ucast (m_low_entries idx ! (it + i))))
          (map (\<lambda>j. (j, cnt (m_low_entries idx ! (it + j) XOR ucast (q_xor qs)) < k + 1))
             [0, 1, 2, 3]) res"
    unfolding m dispatch_lanes by (simp only: list.map)
  also have "\<dots> = scalar_sweep cfg idx qs k (map (\<lambda>j. it + j) [0, 1, 2, 3]) res"
    by (rule run_lanes_sweep[OF f a])
  finally show ?thesis by simp
qed

lemma simd_finish:
  assumes f: "fits32 (q_xor qs)"
  shows "it \<le> r \<Longrightarrow> r \<le> length (m_low_entries idx) \<Longrightarrow>
     (case simd_body cfg idx qs k it r res tr of
        Inl e \<Rightarrow> finish cfg idx qs k r (it, res, tr) = Inl e
      | Inr st \<Rightarrow> fst st \<le> r \<and> finish cfg idx qs k r st = finish cfg idx qs k r (it, res, tr))"
proof (induction "r - it" arbitrary: it res tr rule: less_induct)
  case less
  show ?case
  proof (cases "int it < int r - 4")
    case False
    then show ?thesis using less.prems by (simp add: simd_body.simps)
  next
    case True
    then have lt: "it + 4 < r" by simp
    then have l3: "it + 3 < length (m_low_entries idx)" using less.prems by simp
    have "[it..<it + 4] = [it, it + 1, it + 2, it + 3]"
      by (simp add: upt_conv_Cons)
    moreover have "[it..<r] = [it..<it + 4] @ [it + 4..<r]"
      using lt upt_add_eq_append[of it "it + 4" "r - (it + 4)"] by simp
    ultimately have u: "[it..<r] = [it, it + 1, it + 2, it + 3] @ [it + 4..<r]"
      by simp
    have fs: "finish cfg idx qs k r (it, res, tr)
        = (case scalar_sweep cfg idx qs k [it, it + 1, it + 2, it + 3] res of
             Inl e \<Rightarrow> Inl e
           | Inr res' \<Rightarrow> finish cfg idx qs k r (it + 4, res', tr @ [it, it + 1, it + 2, it + 3]))"
      unfolding finish_def prod.case u scalar_sweep_append
      by (simp split: sum.splits)
    have ih: "case simd_body cfg idx qs k (it + 4) r res' tr' of
          Inl e \<Rightarrow> finish cfg idx qs k r (it + 4, res', tr') = Inl e
        | Inr st \<Rightarrow> fst st \<le> r \<and> finish cfg idx qs k r st = finish cfg idx qs k r (it + 4, res', tr')"
      for res' tr'
      using less.hyps[of "it + 4" res' tr'] lt less.prems by simp
    show ?thesis
    proof (cases "scalar_sweep cfg idx qs k [it, it + 1, it + 2, it + 3] res")
      case (Inl e)
      then show ?thesis
        using True l3 by (subst simd_body.simps) (simp add: simd_block[OF f l3] fs)
    next
      case (Inr res')
      then show ?thesis
        using True l3 ih[of res' "tr @ [it, it + 1, it + 2, it + 3]"]
        by (subst simd_body.simps) (auto simp: simd_block[OF f l3] fs split: sum.splits)
    qed
  qed
qed

lemma triangle_scan_eq:
  assumes f: "fits32 (q_xor qs)" and lr: "l \<le> r" and r: "r \<le> length (m_low_entries idx)"
  shows "triangle_scan cfg idx qs k base l r
       = (case scalar_sweep cfg idx qs k [l..<r] [] of
            Inl e \<Rightarrow> Inl e
          | Inr res \<Rightarrow> Inr (res, [l..<r]))"
proof -
  have fin: "finish cfg idx qs k r (l, [], [])
      = (case scalar_sweep cfg idx qs k [l..<r] [] of Inl e \<Rightarrow> Inl e | Inr res \<Rightarrow> Inr (res, [l..<r]))"
    by (simp add: finish_def split: sum.splits)
  show ?thesis
  proof (cases "prologue cfg idx qs k base l r [] []")
    case (Inl e)
    then show ?thesis
      using prologue_finish[OF f lr r, where cfg = cfg and k = k and base = base and res = "[]" and tr = "[]"]
      by (simp add: triangle_scan_def fin[symmetric])
  next
    case p: (Inr st)
    obtain it res tr where st: "st = (it, res, tr)" by (cases st)
    from prologue_finish[OF f lr r, where cfg = cfg and k = k and base = base and res = "[]" and tr = "[]"] p st
    have it: "it \<le> r" and f1: "finish cfg idx qs k r (it, res, tr) = finish cfg idx qs k r (l, [], [])"
      by simp_all
    show ?thesis
    proof (cases "simd_body cfg idx qs k it r res tr")
      case (Inl e)
      then show ?thesis
        using simd_finish[OF f it r, where cfg = cfg and k = k and res = res and tr = tr] p st f1
        by (simp add: triangle_scan_def fin[symmetric])
    next
      case s: (Inr st')
      obtain it' res' tr' where st': "st' = (it', res', tr')" by (cases st')
      from simd_finish[OF f it r, where cfg = cfg and k = k and res = res and tr = tr] s st'
      have it': "it' \<le> r"
        and f2: "finish cfg idx qs k r (it', res', tr') = finish cfg idx qs k r (it, res, tr)"
        by simp_all
      show ?thesis
        using p st s st' epilogue_finish[OF it' r, where cfg = cfg and qs = qs and k = k and res = res' and tr = tr'] f1 f2
        by (simp add: triangle_scan_def fin[symmetric])
    qed
  qed
qed

section \<open>Soundness of the 32-bit filter and what the triangle query returns\<close>

text \<open>
  C5. The popcount of the 32-bit word \<open>q_xor XOR low_xor\<close> that the first cut of the
  triangle query tests, with \<open>q_xor = q_low XOR q_mid\<close> and the stored
  \<open>low_xor = low XOR mid\<close>, is at most the popcount of the XOR of the two permuted 64-bit
  keys. So an entry whose key is within Hamming distance \<open>k\<close> of the query is never
  discarded by the test \<open>popcount > k\<close>.
\<close>

theorem xor_fold_filter_sound:
  "cnt (ucast (q_xor (query_parts_of cfg q)
               XOR ucast (ucast (low_xor cfg (mi_permute cfg x)) :: u32)) :: u32)
     \<le> cnt (mi_permute cfg q XOR mi_permute cfg x) \<and>
   (bit_permutation cfg \<and> cnt (q XOR x) \<le> k \<longrightarrow>
     cnt (ucast (q_xor (query_parts_of cfg q)
                 XOR ucast (ucast (low_xor cfg (mi_permute cfg x)) :: u32)) :: u32) \<le> k)"
proof -
  have a: "cnt (ucast (q_xor (query_parts_of cfg q)
               XOR ucast (ucast (low_xor cfg (mi_permute cfg x)) :: u32)) :: u32)
     \<le> cnt (mi_permute cfg q XOR mi_permute cfg x)"
    using filter32_le[of cfg q x] by (simp add: filter32_def tri_low_def)
  moreover have "cnt (ucast (q_xor (query_parts_of cfg q)
                 XOR ucast (ucast (low_xor cfg (mi_permute cfg x)) :: u32)) :: u32) \<le> k"
    if "bit_permutation cfg" "cnt (q XOR x) \<le> k"
    using a that by (simp add: perm_distance)
  ultimately show ?thesis by blast
qed

lemma cnt_example: "cnt ((0::u64) XOR 1) \<le> 1"
  by code_simp

theorem xor_fold_filter_sound_witness:
  "cnt (ucast (q_xor (query_parts_of example_family 0)
               XOR ucast (ucast (low_xor example_family (mi_permute example_family 1)) :: u32)) :: u32)
     \<le> cnt (mi_permute example_family 0 XOR mi_permute example_family 1) \<and>
   bit_permutation example_family \<and> cnt ((0::u64) XOR 1) \<le> 1 \<and>
   cnt (ucast (q_xor (query_parts_of example_family 0)
               XOR ucast (ucast (low_xor example_family (mi_permute example_family 1)) :: u32)) :: u32)
     \<le> 1"
  using xor_fold_filter_sound[of example_family 0 1 1] example_family_ok(3) cnt_example
  by blast

lemma cnt_full: "cnt (w::u64) = 64 \<Longrightarrow> w = - 1"
proof -
  assume c: "cnt w = 64"
  have sub: "{i. bit w i} \<subseteq> {..<64}"
    using bit_imp_le_length[of w] by auto
  have "card {i. bit w i} = card {..<64::nat}"
    using c by (simp add: cnt_card)
  with sub have "{i. bit w i} = {..<64}"
    by (intro card_subset_eq) simp_all
  then have "bit w i" if "i < 64" for i
    using that by auto
  then show ?thesis
    by (intro bit_eqI) (auto simp: bit_imp_le_length)
qed

lemma cnt_xor_triangle:
  "cnt (q::u64) \<le> cnt (q XOR x) + cnt x" "cnt x \<le> cnt (q XOR x) + cnt q"
proof -
  have "(q XOR x) XOR x = q" "(q XOR x) XOR q = x"
    by (rule bit_eqI; auto simp: bit_xor_iff)+
  then show "cnt q \<le> cnt (q XOR x) + cnt x" "cnt x \<le> cnt (q XOR x) + cnt q"
    using cnt_xor_le[of "q XOR x" x] cnt_xor_le[of "q XOR x" q] by simp_all
qed

lemma tri_rebuild:
  assumes wf: "tri_wf cfg"
    and hp: "high_prefix cfg x = high_prefix cfg q"
  shows "q_high (query_parts_of cfg q) OR push_bit mid_shift (tri_mid cfg x)
           OR (ucast (tri_low cfg x) XOR tri_mid cfg x) = mi_permute cfg x"
proof -
  note b = tri_wf_bits[OF wf]
  let ?px = "mi_permute cfg x"
  have hs: "drop_bit (high_shift cfg) (mi_permute cfg q) = drop_bit (high_shift cfg) ?px"
    using hp by (simp add: high_prefix_def b(3))
  have low: "ucast (tri_low cfg x) XOR tri_mid cfg x = low_item ?px"
  proof (rule bit_eqI)
    fix j
    show "bit (ucast (tri_low cfg x) XOR tri_mid cfg x) j = bit (low_item ?px) j"
      using b(4)
      by (auto simp: tri_low_def tri_mid_def low_xor_def bit_xor_iff bit_ucast_iff bit_mid_item
          bit_low_item)
  qed
  show ?thesis
    unfolding low
  proof (rule bit_eqI)
    fix j
    assume "possible_bit TYPE(u64) j"
    then have j: "j < 64" by (simp add: possible_bit_word)
    show "bit (q_high (query_parts_of cfg q) OR push_bit mid_shift (tri_mid cfg x) OR low_item ?px) j
        = bit ?px j"
      using j b(2) b(5) same_high_bits[OF hs, of j]
      by (cases "j < 32"; cases "j < high_shift cfg")
        (auto simp: query_parts_of_def Let_def bit_or_iff bit_push_bit_iff bit_drop_bit_eq
          tri_mid_def bit_mid_item bit_low_item mid_shift_def low_bits_def)
  qed
qed

lemma fits32_q_xor: "tri_wf cfg \<Longrightarrow> fits32 (q_xor (query_parts_of cfg q))"
proof (rule fits32I)
  fix j
  assume wf: "tri_wf cfg" and b: "bit (q_xor (query_parts_of cfg q)) j"
  note m = tri_wf_bits(4)[OF wf]
  from b consider "bit (ucast (ucast (mi_permute cfg q) :: u32) :: u64) j"
    | "bit (mid_item cfg (mi_permute cfg q)) j"
    by (auto simp: query_parts_of_def Let_def bit_xor_iff mid_item_def)
  then show "j < 32"
  proof cases
    case 1
    then show ?thesis by (auto simp: bit_ucast_iff)
  next
    case 2
    then show ?thesis using m by (simp add: bit_mid_item)
  qed
qed

lemma q_permuted_parts: "q_permuted (query_parts_of cfg q) = mi_permute cfg q"
  by (simp add: query_parts_of_def Let_def)

lemma step_on_key:
  assumes wf: "tri_wf cfg" and perm: "bit_permutation cfg"
    and hp: "high_prefix cfg x = high_prefix cfg q"
    and l: "it < length (m_low_entries idx)" "it < length (m_mid_entries idx)"
    and e: "m_low_entries idx ! it = tri_low cfg x" "m_mid_entries idx ! it = tri_mid cfg x"
  shows "epilogue_step cfg idx (query_parts_of cfg q) k it res
       = Inr (if cnt (q XOR x) \<le> k then res @ [x] else res)"
proof -
  let ?qs = "query_parts_of cfg q"
  have f: "fits32 (q_xor ?qs)" using wf by (rule fits32_q_xor)
  have "cnt (q_xor ?qs XOR ucast (tri_low cfg x)) = cnt (filter32 cfg q x)"
    using f by (simp add: filter32_def cnt_ucast_fits32 fits32_xor_ucast)
  also have "\<dots> \<le> cnt (q XOR x)"
    using filter32_le[of cfg q x] perm by (simp add: perm_distance)
  finally have flt: "cnt (q_xor ?qs XOR ucast (tri_low cfg x)) \<le> cnt (q XOR x)" .
  have v: "verify cfg idx ?qs k it (ucast (tri_low cfg x)) res
      = Inr (if cnt (q XOR x) \<le> k then res @ [x] else res)"
    using l(2) perm
    by (simp add: verify_def Let_def e(2) tri_rebuild[OF wf hp] q_permuted_parts perm_distance
        perm_inv)
  show ?thesis
    using l(1) flt by (auto simp: epilogue_step_def Let_def e(1) v)
qed

lemma sweep_keys:
  assumes wf: "tri_wf cfg" and perm: "bit_permutation cfg"
  shows "\<forall>i<length ys. m_low_entries idx ! (l + i) = tri_low cfg (ys ! i) \<and>
            m_mid_entries idx ! (l + i) = tri_mid cfg (ys ! i) \<and>
            high_prefix cfg (ys ! i) = high_prefix cfg q \<Longrightarrow>
     l + length ys \<le> length (m_low_entries idx) \<Longrightarrow>
     l + length ys \<le> length (m_mid_entries idx) \<Longrightarrow>
     scalar_sweep cfg idx (query_parts_of cfg q) k [l..<l + length ys] res
       = Inr (res @ filter (\<lambda>x. cnt (q XOR x) \<le> k) ys)"
proof (induction ys arbitrary: l res)
  case Nil
  then show ?case by simp
next
  case (Cons y ys)
  have u: "[l..<l + length (y # ys)] = l # [Suc l..<Suc l + length ys]"
    by (simp add: upt_conv_Cons del: upt_Suc)
  from Cons.prems(1) have y: "m_low_entries idx ! l = tri_low cfg y"
      "m_mid_entries idx ! l = tri_mid cfg y" "high_prefix cfg y = high_prefix cfg q"
    by force+
  have st: "epilogue_step cfg idx (query_parts_of cfg q) k l res
      = Inr (if cnt (q XOR y) \<le> k then res @ [y] else res)"
    using Cons.prems(2,3) by (intro step_on_key[OF wf perm y(3) _ _ y(1,2)]) simp_all
  have a: "\<forall>i<length ys. m_low_entries idx ! (Suc l + i) = tri_low cfg (ys ! i) \<and>
            m_mid_entries idx ! (Suc l + i) = tri_mid cfg (ys ! i) \<and>
            high_prefix cfg (ys ! i) = high_prefix cfg q"
  proof (intro allI impI)
    fix i assume "i < length ys"
    then have "Suc i < length (y # ys)" by simp
    from Cons.prems(1)[rule_format, OF this]
    show "m_low_entries idx ! (Suc l + i) = tri_low cfg (ys ! i) \<and>
            m_mid_entries idx ! (Suc l + i) = tri_mid cfg (ys ! i) \<and>
            high_prefix cfg (ys ! i) = high_prefix cfg q"
      by simp
  qed
  have ih: "scalar_sweep cfg idx (query_parts_of cfg q) k [Suc l..<Suc l + length ys] res'
      = Inr (res' @ filter (\<lambda>x. cnt (q XOR x) \<le> k) ys)" for res'
    using Cons.prems(2,3) by (intro Cons.IH[OF a]) simp_all
  show ?case
    unfolding u using ih by (simp add: st del: upt_Suc)
qed

lemma bucket_word_value:
  assumes c: "c < 64" and p: "unat (P::u64) < 2 ^ 58"
  shows "unat (push_bit distance_bits P OR word_of_nat c) = 64 * unat P + c"
proof -
  have disj: "\<not> bit (push_bit distance_bits P) n \<or> \<not> bit (word_of_nat c :: u64) n" for n
  proof (cases "n < 6")
    case True
    then show ?thesis by (simp add: bit_push_bit_iff distance_bits_def)
  next
    case False
    have "c < 2 ^ 6" using c by simp
    then have "\<not> bit (word_of_nat c :: u64) n"
      using bit_of_nat_small[of c n 6] False by blast
    then show ?thesis by simp
  qed
  have "push_bit distance_bits P OR word_of_nat c = push_bit distance_bits P + word_of_nat c"
    using disj by (intro disjunctive_add[symmetric]) 
  moreover have up: "unat (push_bit distance_bits P) = 64 * unat P"
  proof -
    have "unat P * unat (64::u64) < 2 ^ LENGTH(64)" using p by simp
    then have "unat (P * 64) = unat P * unat (64::u64)"
      by (simp only: unat_mult_lem[THEN iffD1])
    then show ?thesis
      by (simp add: push_bit_eq_mult distance_bits_def)
  qed
  moreover have uc: "unat (word_of_nat c :: u64) = c"
    using c by (simp add: unat_of_nat)
  moreover have "unat (push_bit distance_bits P + (word_of_nat c :: u64))
      = unat (push_bit distance_bits P) + unat (word_of_nat c :: u64)"
  proof -
    have "unat (push_bit distance_bits P) + unat (word_of_nat c :: u64) < 2 ^ LENGTH(64)"
      unfolding up uc using p c by simp
    then show ?thesis by (simp only: unat_add_lem[THEN iffD1])
  qed
  ultimately show ?thesis by simp
qed

lemma high_prefix_small: "tri_wf cfg \<Longrightarrow> unat (high_prefix cfg x) < 2 ^ 58"
proof -
  assume wf: "tri_wf cfg"
  have "bit (high_prefix cfg x) j \<Longrightarrow> j < 58" for j
  proof -
    assume "bit (high_prefix cfg x) j"
    then have "bit (mi_permute cfg x) (64 - (splitter_bits cfg - distance_bits) + j)"
      by (simp add: high_prefix_def bit_drop_bit_eq)
    then have "64 - (splitter_bits cfg - distance_bits) + j < 64"
      using bit_imp_le_length[of "mi_permute cfg x"] by fastforce
    then show ?thesis using wf unfolding tri_wf_def distance_bits_def by arith
  qed
  then show ?thesis by (rule unat_less_if_bits)
qed

lemma tri_bid_value:
  "tri_wf cfg \<Longrightarrow> cnt x < 64 \<Longrightarrow> tri_bid cfg x = 64 * unat (high_prefix cfg x) + cnt x"
  unfolding tri_bid_def tri_bucket_id_def Let_def
  by (intro bucket_word_value high_prefix_small)

lemma bucket_left_value:
  "tri_wf cfg \<Longrightarrow> cnt x < 64 \<Longrightarrow>
   unat (get_bucket_left cfg x k) = 64 * unat (high_prefix cfg x) + (cnt x - k)"
  unfolding get_bucket_left_def Let_def
  using high_prefix_small[of cfg x] by (subst bucket_word_value) auto

lemma bucket_right_value:
  "tri_wf cfg \<Longrightarrow> cnt x + k < 64 \<Longrightarrow>
   unat (get_bucket_right cfg x k) = 64 * unat (high_prefix cfg x) + (cnt x + k)"
  unfolding get_bucket_right_def Let_def
  using high_prefix_small[of cfg x] by (subst bucket_word_value) auto

lemma tri_bid_full:
  assumes wf: "tri_wf cfg" and perm: "bit_permutation cfg" and c: "cnt x = 64"
  shows "tri_bid cfg x = 64 * unat (high_prefix cfg x)"
proof -
  have "cnt (mi_permute cfg x) = 64" using perm c by (simp add: perm_cnt)
  then have px: "mi_permute cfg x = - 1" by (rule cnt_full)
  have b0: "bit (high_prefix cfg x) 0"
    using tri_wf_bits(3,5)[OF wf] by (simp add: high_prefix_def px bit_drop_bit_eq bit_mask_iff)
  have "push_bit distance_bits (high_prefix cfg x) OR (word_of_nat 64 :: u64)
      = push_bit distance_bits (high_prefix cfg x) OR word_of_nat 0"
  proof (rule bit_eqI)
    fix j
    have "bit (64 :: u64) j \<longleftrightarrow> j = 6"
      using bit_exp_iff[of 6 j, where 'a = u64] by (auto simp: possible_bit_word)
    then show "bit (push_bit distance_bits (high_prefix cfg x) OR (word_of_nat 64 :: u64)) j
        = bit (push_bit distance_bits (high_prefix cfg x) OR word_of_nat 0) j"
      using b0 by (auto simp: bit_or_iff bit_push_bit_iff distance_bits_def)
  qed
  then show ?thesis
    unfolding tri_bid_def tri_bucket_id_def Let_def c
    using bucket_word_value[of 0 "high_prefix cfg x"] high_prefix_small[OF wf, of x]
    by simp
qed

lemma tri_bid_div:
  assumes wf: "tri_wf cfg" and perm: "bit_permutation cfg"
  shows "tri_bid cfg x div 64 = unat (high_prefix cfg x)"
proof (cases "cnt x < 64")
  case True
  then show ?thesis by (simp add: tri_bid_value[OF wf])
next
  case False
  with cnt_le_length[of x] have "cnt x = 64" by simp
  then show ?thesis by (simp add: tri_bid_full[OF wf perm])
qed

lemma in_range_same_prefix:
  assumes wf: "tri_wf cfg" and perm: "bit_permutation cfg" and ok: "cnt q + k < 64"
    and r: "unat (get_bucket_left cfg q k) \<le> tri_bid cfg x"
           "tri_bid cfg x \<le> unat (get_bucket_right cfg q k)"
  shows "high_prefix cfg x = high_prefix cfg q"
proof -
  let ?P = "unat (high_prefix cfg q)"
  have "64 * ?P \<le> tri_bid cfg x" "tri_bid cfg x < 64 * ?P + 64"
    using r ok by (simp_all add: bucket_left_value[OF wf] bucket_right_value[OF wf])
  then have "tri_bid cfg x div 64 = ?P"
    by (simp add: div_nat_eqI mult.commute)
  then show ?thesis
    by (simp add: tri_bid_div[OF wf perm] word_unat_eq_iff)
qed

lemma same_prefix_in_range:
  assumes wf: "tri_wf cfg" and ok: "cnt q + k < 64"
    and hp: "high_prefix cfg x = high_prefix cfg q" and d: "cnt (q XOR x) \<le> k"
  shows "unat (get_bucket_left cfg q k) \<le> tri_bid cfg x
       \<and> tri_bid cfg x \<le> unat (get_bucket_right cfg q k)"
proof -
  have "cnt x < 64" "cnt q - k \<le> cnt x" "cnt x \<le> cnt q + k"
    using cnt_xor_triangle(1)[of q x] cnt_xor_triangle(2)[where q = q and x = x] d ok by simp_all
  then show ?thesis
    using ok by (simp add: bucket_left_value[OF wf] bucket_right_value[OF wf] tri_bid_value[OF wf] hp)
qed

lemma mset_sorted_store:
  "a \<le> b \<Longrightarrow>
   mset (sorted_store bid (\<lambda>x. x) xs a b) = filter_mset (\<lambda>x. a \<le> bid x \<and> bid x < b) (mset xs)"
proof (induction b)
  case 0
  then show ?case by (simp add: sorted_store_def)
next
  case (Suc b)
  show ?case
  proof (cases "a = Suc b")
    case True
    then show ?thesis by (simp add: sorted_store_def)
  next
    case False
    with Suc.prems have ab: "a \<le> b" by simp
    have "filter_mset (\<lambda>x. a \<le> bid x \<and> bid x < Suc b) (mset xs)
        = filter_mset (\<lambda>x. a \<le> bid x \<and> bid x < b) (mset xs) + filter_mset (\<lambda>x. bid x = b) (mset xs)"
      using ab by (induction xs) auto
    then show ?thesis
      using Suc.IH[OF ab] ab by (simp add: sorted_store_def bucket_entries_def)
  qed
qed

lemma set_sorted_store:
  "a \<le> b \<Longrightarrow> set (sorted_store bid (\<lambda>x. x) xs a b) = {x \<in> set xs. a \<le> bid x \<and> bid x < b}"
proof -
  assume "a \<le> b"
  from mset_sorted_store[OF this, of bid xs]
  have "set_mset (mset (sorted_store bid (\<lambda>x. x) xs a b))
      = set_mset (filter_mset (\<lambda>x. a \<le> bid x \<and> bid x < b) (mset xs))"
    by simp
  then show ?thesis by simp
qed

lemma length_sorted_store_range:
  "a \<le> b \<Longrightarrow> length (sorted_store bid pay xs a b) = offs bid xs b - offs bid xs a"
  using length_sorted_store[of bid pay xs b] length_sorted_store[of bid pay xs a]
    sorted_store_split[of 0 a b bid pay xs]
  by simp

lemma triangle_match_eq:
  assumes wf: "tri_wf cfg" and perm: "bit_permutation cfg"
    and small: "length xs + 2 ^ splitter_bits cfg < 2 ^ 64"
    and ok: "cnt q + k < 64"
    and build: "triangle_build cfg xs = Inr idx"
  defines "ys \<equiv> sorted_store (tri_bid cfg) (\<lambda>x. x) xs
              (unat (get_bucket_left cfg q k)) (Suc (unat (get_bucket_right cfg q k)))"
  shows "triangle_match cfg base idx q k find_only_candidates
       = Inr (if find_only_candidates then [] else filter (\<lambda>x. cnt (q XOR x) \<le> k) ys,
              word_of_nat (length ys))"
proof -
  let ?U = "2 ^ splitter_bits cfg :: nat"
  let ?bid = "tri_bid cfg"
  let ?bl = "unat (get_bucket_left cfg q k)"
  let ?br = "unat (get_bucket_right cfg q k)"
  let ?C = "pattern (map (cntb ?bid xs) [0..<?U])"
  let ?ls = "sorted_store ?bid (tri_low cfg) xs 0 ?U"
  let ?ms = "sorted_store ?bid (tri_mid cfg) xs 0 ?U"
  let ?keys = "sorted_store ?bid (\<lambda>x. x) xs 0 ?U"
  let ?l = "offs ?bid xs ?bl"
  let ?r = "offs ?bid xs (Suc ?br)"
  let ?qs = "query_parts_of cfg q"
  have bids: "\<forall>x\<in>set xs. ?bid x < ?U"
    using tri_bid_range[OF wf] by simp
  have tot: "offs ?bid xs ?U = length xs" using offs_total[OF bids] .
  have small': "offs ?bid xs ?U + ?U < 2 ^ 64" using small tot by simp
  have brU: "?br < ?U" using wf by (rule bucket_right_range)
  have blbr: "?bl \<le> Suc ?br"
    using ok cnt_le_length[of q]
    by (simp add: bucket_left_value[OF wf] bucket_right_value[OF wf])
  from build have idx: "t_C_sel idx = Sel ?C" "m_low_entries idx = ?ls" "m_mid_entries idx = ?ms"
    unfolding triangle_build_eq[OF wf small] by auto
  have l: "slice_left (Sel ?C) ?bl = Some ?l"
    using blbr brU by (intro slice_left_eq[OF small']) simp
  have r: "slice_right (Sel ?C) ?br = Some ?r"
    using brU by (intro slice_right_eq[OF small'])
  have lr: "?l \<le> ?r" using blbr by (rule offs_mono)
  have rlen: "?r \<le> length ?ls" "?r \<le> length ?ms"
    using brU by (simp_all add: length_sorted_store offs_mono)
  have leny: "length ys = ?r - ?l"
    unfolding ys_def using blbr by (rule length_sorted_store_range)
  have cand: "(word_of_nat ?r :: u64) - word_of_nat ?l = word_of_nat (length ys)"
    using lr by (simp add: leny)
  have ysl: "ys = slice ?keys ?l ?r"
    unfolding ys_def using blbr brU by (intro slice_sorted_store[symmetric]) simp_all
  have llen: "?l \<le> length ?keys"
    using lr rlen(1) by (simp add: length_sorted_store)
  have nth: "ys ! i = ?keys ! (?l + i)" if "i < length ys" for i
    using that llen unfolding ysl slice_def by (simp add: nth_drop)
  have keys_len: "?l + length ys \<le> length ?keys"
    using lr rlen(1) by (simp add: leny length_sorted_store)
  have low: "?ls = map (tri_low cfg) ?keys" and mid: "?ms = map (tri_mid cfg) ?keys"
    by (simp_all add: map_sorted_store)
  have ent: "\<forall>i<length ys. m_low_entries idx ! (?l + i) = tri_low cfg (ys ! i) \<and>
            m_mid_entries idx ! (?l + i) = tri_mid cfg (ys ! i) \<and>
            high_prefix cfg (ys ! i) = high_prefix cfg q"
  proof (intro allI impI conjI)
    fix i assume i: "i < length ys"
    then have li: "?l + i < length ?keys" using keys_len by simp
    show "m_low_entries idx ! (?l + i) = tri_low cfg (ys ! i)"
      unfolding idx low using li by (simp add: nth[OF i])
    show "m_mid_entries idx ! (?l + i) = tri_mid cfg (ys ! i)"
      unfolding idx mid using li by (simp add: nth[OF i])
    have "ys ! i \<in> set ys" using i by simp
    then have "?bl \<le> ?bid (ys ! i)" "?bid (ys ! i) \<le> ?br"
      unfolding ys_def set_sorted_store[OF blbr] by simp_all
    then show "high_prefix cfg (ys ! i) = high_prefix cfg q"
      by (rule in_range_same_prefix[OF wf perm ok])
  qed
  have rr: "?r = ?l + length ys" using lr by (simp add: leny)
  have sw: "scalar_sweep cfg idx ?qs k [?l..<?r] []
      = Inr (filter (\<lambda>x. cnt (q XOR x) \<le> k) ys)"
    unfolding rr using sweep_keys[OF wf perm ent, where k = k and res = "[]"] rlen rr
    by (simp add: idx)
  have scan: "triangle_scan cfg idx ?qs k base ?l ?r
      = Inr (filter (\<lambda>x. cnt (q XOR x) \<le> k) ys, [?l..<?r])"
    using triangle_scan_eq[OF fits32_q_xor[OF wf] lr, where idx = idx and cfg = cfg and k = k and base = base] rlen(1)
    by (simp add: idx sw)
  show ?thesis
    unfolding triangle_match_def Let_def idx
    using l r scan cand by (simp add: idx)
qed

lemma triangle_results_mset:
  assumes wf: "tri_wf cfg" and perm: "bit_permutation cfg" and ok: "cnt q + k < 64"
  shows "mset (filter (\<lambda>x. cnt (q XOR x) \<le> k)
           (sorted_store (tri_bid cfg) (\<lambda>x. x) xs
              (unat (get_bucket_left cfg q k)) (Suc (unat (get_bucket_right cfg q k)))))
       = filter_mset (\<lambda>x. high_prefix cfg x = high_prefix cfg q \<and> cnt (q XOR x) \<le> k) (mset xs)"
proof -
  let ?bl = "unat (get_bucket_left cfg q k)"
  let ?br = "unat (get_bucket_right cfg q k)"
  have blbr: "?bl \<le> Suc ?br"
    using ok cnt_le_length[of q]
    by (simp add: bucket_left_value[OF wf] bucket_right_value[OF wf])
  have eq: "(?bl \<le> tri_bid cfg x \<and> tri_bid cfg x < Suc ?br) \<and> cnt (q XOR x) \<le> k
      \<longleftrightarrow> high_prefix cfg x = high_prefix cfg q \<and> cnt (q XOR x) \<le> k" for x
    using in_range_same_prefix[OF wf perm ok, of x] same_prefix_in_range[OF wf ok, of x]
    by (auto simp: less_Suc_eq_le)
  have "filter_mset (\<lambda>x. cnt (q XOR x) \<le> k)
        (filter_mset (\<lambda>x. ?bl \<le> tri_bid cfg x \<and> tri_bid cfg x < Suc ?br) (mset xs))
      = filter_mset (\<lambda>x. (?bl \<le> tri_bid cfg x \<and> tri_bid cfg x < Suc ?br) \<and> cnt (q XOR x) \<le> k)
          (mset xs)"
    by (simp only: filter_filter_mset)
  also have "\<dots> = filter_mset (\<lambda>x. high_prefix cfg x = high_prefix cfg q \<and> cnt (q XOR x) \<le> k)
      (mset xs)"
    by (rule filter_mset_cong) (simp_all only: eq)
  finally show ?thesis
    by (simp only: mset_filter mset_sorted_store[OF blbr])
qed

section \<open>Completeness and soundness of a query\<close>

text \<open>
  Building an index from a key list and querying it, as one function.
\<close>

definition simple_build_match :: "perm_family \<Rightarrow> u64 list \<Rightarrow> u64 \<Rightarrow> nat \<Rightarrow> bool
    \<Rightarrow> error + (u64 list \<times> u64)" where
  "simple_build_match cfg xs q errors find_only_candidates =
     (case simple_build cfg xs of
        Inl e \<Rightarrow> Inl e
      | Inr idx \<Rightarrow> simple_match cfg idx q errors find_only_candidates)"

definition triangle_build_match :: "perm_family \<Rightarrow> nat \<Rightarrow> u64 list \<Rightarrow> u64 \<Rightarrow> nat \<Rightarrow> bool
    \<Rightarrow> error + (u64 list \<times> u64)" where
  "triangle_build_match cfg base xs q errors find_only_candidates =
     (case triangle_build cfg xs of
        Inl e \<Rightarrow> Inl e
      | Inr idx \<Rightarrow> triangle_match cfg base idx q errors find_only_candidates)"

text \<open>
  A family with eight blocks of eight bits and \<open>t_k = 7\<close>: \<open>match_len\<close> is 1 and
  \<open>splitter_bits\<close> is 8. The permutation is the identity.
\<close>

definition family8 :: perm_family where
  "family8 = \<lparr>splitter_bits = 8, mi_permute = (\<lambda>x. x), mi_rev_permute = (\<lambda>x. x), t_k = 7\<rparr>"

text \<open>
  C1, as stated, fails: one instance only looks into the bucket of the query. With
  \<open>S = {0}\<close> and the query \<open>0x0100000000000000\<close>, which differs from the key in one bit of
  the splitter, the simple index returns nothing for \<open>k = 1\<close>.
\<close>

theorem completeness_counterexample:
  "(0::u64) \<in> set [0] \<and> cnt (0x0100000000000000 XOR (0::u64)) \<le> 1 \<and> 1 \<le> t_k family8 \<and>
   simple_build_match family8 [0] 0x0100000000000000 1 False = Inr ([], 0)"
  by code_simp

text \<open>
  C1, amended. For every indexed key \<open>x\<close> and every query \<open>q\<close> with bound \<open>k \<le> t_k\<close>: if
  \<open>popcount(q XOR x) \<le> k\<close> and the permuted key and the permuted query agree on the
  prefix bits that select the bucket (the top \<open>splitter_bits\<close> bits in the simple index,
  the top \<open>splitter_bits - 6\<close> bits in the triangle index), and for the triangle index
  \<open>popcount(q) + k < 64\<close>, then \<open>x\<close> occurs in the result list of \<open>match(q, k, false)\<close>,
  as often as in the input.
\<close>

theorem completeness_within_prefix:
  assumes "length xs + 2 ^ splitter_bits cfg < 2 ^ 64"
    and "bit_permutation cfg"
    and "k \<le> t_k cfg"
    and "x \<in> set xs"
    and "cnt (q XOR x) \<le> k"
  shows "(simple_wf cfg \<and> get_bucket_id cfg x = get_bucket_id cfg q \<longrightarrow>
           (\<exists>res c. simple_build_match cfg xs q k False = Inr (res, c) \<and>
              x \<in> set res \<and> count (mset res) x = count (mset xs) x)) \<and>
         (tri_wf cfg \<and> high_prefix cfg x = high_prefix cfg q \<and> cnt q + k < 64 \<longrightarrow>
           (\<exists>res c. triangle_build_match cfg base xs q k False = Inr (res, c) \<and>
              x \<in> set res \<and> count (mset res) x = count (mset xs) x))"
proof (intro conjI impI)
  assume a: "simple_wf cfg \<and> get_bucket_id cfg x = get_bucket_id cfg q"
  then have wf: "simple_wf cfg" by simp
  let ?res = "filter (\<lambda>y. get_bucket_id cfg y = get_bucket_id cfg q \<and> cnt (q XOR y) \<le> k) xs"
  obtain idx where b: "simple_build cfg xs = Inr idx"
    using simple_build_eq[OF wf assms(1)] by simp
  have m: "simple_build_match cfg xs q k False
      = Inr (?res, word_of_nat (cntb (simple_bid cfg) xs (simple_bid cfg q)))"
    unfolding simple_build_match_def b using simple_match_eq[OF wf assms(1,2) b, of q k False]
    by simp
  have "x \<in> set ?res" using a assms(4,5) by simp
  moreover have "count (mset ?res) x = count (mset xs) x"
    using a assms(5) by (simp add: mset_filter)
  ultimately show "\<exists>res c. simple_build_match cfg xs q k False = Inr (res, c) \<and>
      x \<in> set res \<and> count (mset res) x = count (mset xs) x"
    using m by blast
next
  assume a: "tri_wf cfg \<and> high_prefix cfg x = high_prefix cfg q \<and> cnt q + k < 64"
  then have wf: "tri_wf cfg" and ok: "cnt q + k < 64" by simp_all
  let ?ys = "sorted_store (tri_bid cfg) (\<lambda>x. x) xs
              (unat (get_bucket_left cfg q k)) (Suc (unat (get_bucket_right cfg q k)))"
  let ?res = "filter (\<lambda>y. cnt (q XOR y) \<le> k) ?ys"
  obtain idx where b: "triangle_build cfg xs = Inr idx"
    using triangle_build_eq[OF wf assms(1)] by simp
  have m: "triangle_build_match cfg base xs q k False = Inr (?res, word_of_nat (length ?ys))"
    unfolding triangle_build_match_def b
    using triangle_match_eq[OF wf assms(2,1) ok b, of base False] by simp
  have ms: "mset ?res
      = filter_mset (\<lambda>y. high_prefix cfg y = high_prefix cfg q \<and> cnt (q XOR y) \<le> k) (mset xs)"
    using triangle_results_mset[OF wf assms(2) ok] .
  have c: "count (mset ?res) x = count (mset xs) x"
    unfolding ms using a assms(5) by simp
  moreover have "x \<in> set ?res"
  proof -
    have "0 < count (mset xs) x" using assms(4) by simp
    with c have "0 < count (mset ?res) x" by simp
    then show ?thesis by (simp only: count_greater_zero_iff set_mset_mset)
  qed
  ultimately show "\<exists>res c. triangle_build_match cfg base xs q k False = Inr (res, c) \<and>
      x \<in> set res \<and> count (mset res) x = count (mset xs) x"
    using m by blast
qed

lemma example_family_facts:
  "t_k example_family = 3" "splitter_bits example_family = 16"
  "get_bucket_id example_family x = drop_bit 48 x"
  "high_prefix example_family x = drop_bit 54 x"
  by (simp_all add: example_family_def get_bucket_id_def high_prefix_def distance_bits_def)

lemma cnt_small_examples:
  "cnt ((1::u64) XOR 3) \<le> 3" "cnt (1::u64) + 3 < 64"
  "drop_bit 48 (3::u64) = drop_bit 48 1" "drop_bit 54 (3::u64) = drop_bit 54 1"
  by code_simp+

theorem completeness_within_prefix_witness:
  "(\<exists>res c. simple_build_match example_family [3, 5, 3] 1 3 False = Inr (res, c) \<and>
      3 \<in> set res \<and> count (mset res) 3 = count (mset [3, 5, 3 :: u64]) 3) \<and>
   (\<exists>res c. triangle_build_match example_family 0 [3, 5, 3] 1 3 False = Inr (res, c) \<and>
      3 \<in> set res \<and> count (mset res) 3 = count (mset [3, 5, 3 :: u64]) 3)"
proof -
  have h1: "length [3, 5, 3 :: u64] + 2 ^ splitter_bits example_family < 2 ^ 64"
    by (simp add: example_family_facts)
  have h3: "(3::nat) \<le> t_k example_family" by (simp add: example_family_facts)
  have h4: "(3::u64) \<in> set [3, 5, 3]" by simp
  note t = completeness_within_prefix[OF h1 example_family_ok(3) h3 h4 cnt_small_examples(1),
      of 0]
  have s: "simple_wf example_family \<and> get_bucket_id example_family 3 = get_bucket_id example_family 1"
    using example_family_ok(1) cnt_small_examples(3) by (simp add: example_family_facts)
  have tr: "tri_wf example_family \<and> high_prefix example_family 3 = high_prefix example_family 1
      \<and> cnt (1::u64) + 3 < 64"
    using example_family_ok(2) cnt_small_examples(2,4) by (simp add: example_family_facts)
  from t s tr show ?thesis by blast
qed

text \<open>
  What holds for soundness. Every key the simple index returns is in the input, as often
  as the result has it, and within distance \<open>k\<close> of the query. The same holds for the
  triangle index as long as \<open>popcount(q) + k < 64\<close>.
\<close>

lemma simple_match_sound:
  assumes "simple_wf cfg" and "length xs + 2 ^ splitter_bits cfg < 2 ^ 64"
    and "bit_permutation cfg"
  shows "\<exists>res c. simple_build_match cfg xs q k False = Inr (res, c) \<and>
           mset res \<subseteq># mset xs \<and> (\<forall>y\<in>set res. cnt (q XOR y) \<le> k)"
proof -
  obtain idx where b: "simple_build cfg xs = Inr idx"
    using simple_build_eq[OF assms(1,2)] by simp
  show ?thesis
    unfolding simple_build_match_def b
    using simple_match_eq[OF assms b, of q k False]
    by (simp add: mset_filter)
qed

lemma triangle_match_sound_below_64:
  assumes "tri_wf cfg" and "length xs + 2 ^ splitter_bits cfg < 2 ^ 64"
    and "bit_permutation cfg" and "cnt q + k < 64"
  shows "\<exists>res c. triangle_build_match cfg base xs q k False = Inr (res, c) \<and>
           mset res \<subseteq># mset xs \<and> (\<forall>y\<in>set res. cnt (q XOR y) \<le> k)"
proof -
  obtain idx where b: "triangle_build cfg xs = Inr idx"
    using triangle_build_eq[OF assms(1,2)] by simp
  let ?res = "filter (\<lambda>y. cnt (q XOR y) \<le> k)
      (sorted_store (tri_bid cfg) (\<lambda>x. x) xs
         (unat (get_bucket_left cfg q k)) (Suc (unat (get_bucket_right cfg q k))))"
  have "mset ?res \<subseteq># mset xs"
    unfolding triangle_results_mset[OF assms(1,3,4)] by simp
  then show ?thesis
    unfolding triangle_build_match_def b
    using triangle_match_eq[OF assms(1,3,2,4) b, of base False]
    by simp
qed

text \<open>
  C2. Soundness fails in the triangle index. With the key \<open>0xFFFFFFFFFFFFFFFF\<close> indexed and
  the query \<open>0xBFFFFFFFFFFFFFFF\<close>, \<open>k = 1\<close>, \<open>match\<close> returns \<open>0xBFFFFFFFFFFFFFFF\<close>, which
  was never indexed. \<open>get_bucket_right\<close> clamps the cardinality to 64, which needs seven
  bits: OR-ed below the prefix it sets the lowest prefix bit, so the right bucket is bucket
  0 of the next prefix. The key of 64 one-bits was filed there for the same reason, and its
  entry is rebuilt with the prefix of the query.
\<close>

theorem triangle_returns_key_not_indexed:
  "triangle_build_match family8 0 [0xFFFFFFFFFFFFFFFF] 0xBFFFFFFFFFFFFFFF 1 False
     = Inr ([0xBFFFFFFFFFFFFFFF], 1) \<and>
   (0xBFFFFFFFFFFFFFFF :: u64) \<notin> set [0xFFFFFFFFFFFFFFFF] \<and> 1 \<le> t_k family8"
  by code_simp

text \<open>
  C4. The candidate count is not the number of entries of a slice for this query of the
  triangle index: with the key \<open>0xC000000000000000\<close> indexed and the query
  \<open>0xFFFFFFFFFFFFFFFE\<close>, \<open>k = 1\<close>, the left bucket is 254 and the right bucket, with the
  cardinality clamped to 64, is 192. So \<open>l = 1\<close> and \<open>r = 0\<close>: with \<open>candidates_only\<close> the
  call returns \<open>r - l = 2^64 - 1\<close> for an index of one entry, and without it the scan runs
  past the end of the store.
\<close>

theorem triangle_candidates_wrap:
  "triangle_build_match family8 0 [0xC000000000000000] 0xFFFFFFFFFFFFFFFE 1 True
     = Inr ([], 0xFFFFFFFFFFFFFFFF) \<and>
   triangle_build_match family8 0 [0xC000000000000000] 0xFFFFFFFFFFFFFFFE 1 False
     = Inl OutOfRange \<and> 1 \<le> t_k family8"
  by code_simp

text \<open>
  C7. For \<open>l \<le> r\<close> within the store the three loops are the scalar sweep of \<open>[l, r)\<close>
  (lemma \<open>triangle_scan_eq\<close>). But \<open>match\<close> can reach them with \<open>l > r\<close>: for the index of
  the key \<open>0xC000000000000000\<close> and the query \<open>0xFFFFFFFFFFFFFFFE\<close>, \<open>k = 1\<close>, the bounds are
  \<open>l = 1\<close> and \<open>r = 0\<close>, the store has one entry, and the loops read the entry at index 1.
\<close>

theorem triangle_scan_leaves_slice:
  "(case triangle_build family8 [0xC000000000000000] of
      Inl e \<Rightarrow> None
    | Inr idx \<Rightarrow>
        Some (slice_left (t_C_sel idx) (unat (get_bucket_left family8 0xFFFFFFFFFFFFFFFE 1)),
              slice_right (t_C_sel idx) (unat (get_bucket_right family8 0xFFFFFFFFFFFFFFFE 1)),
              length (m_low_entries idx),
              triangle_scan family8 idx (query_parts_of family8 0xFFFFFFFFFFFFFFFE) 1 0 1 0))
     = Some (Some 1, Some 0, 1, Inl OutOfRange)"
  by code_simp

text \<open>
  C8. Neither \<open>match\<close> rejects a bound above \<open>t_k\<close>. With \<open>t_k = 7\<close>, the index of the key
  \<open>0\<close> and the query \<open>0xFF\<close>, the call with \<open>k = 8\<close> returns the key and one candidate in
  both indexes.
\<close>

theorem match_accepts_bound_above_t_k:
  "t_k family8 < 8 \<and>
   simple_build_match family8 [0] 0xFF 8 False = Inr ([0], 1) \<and>
   triangle_build_match family8 0 [0] 0xFF 8 False = Inr ([0], 1)"
  by code_simp

section \<open>Serialization\<close>

text \<open>
  \<open>serialize\<close> and \<open>load\<close> call the serializers of the succinct library for each member.
  These are outside the verified sources and are taken as parameters, one pair per member
  type; a stream is a list of bytes of some type \<open>'b\<close>. \<open>sel_load\<close> takes the bit vector
  the loaded support is bound to, as \<open>m_C_sel.load(in, &m_C)\<close> does.
\<close>

record 'b sdsl_io =
  write_member :: "nat \<Rightarrow> 'b list"
  read_member :: "'b list \<Rightarrow> (nat \<times> 'b list) option"
  iv_serialize :: "u64 list \<Rightarrow> 'b list"
  iv_load :: "'b list \<Rightarrow> (u64 list \<times> 'b list) option"
  low_serialize :: "u32 list \<Rightarrow> 'b list"
  low_load :: "'b list \<Rightarrow> (u32 list \<times> 'b list) option"
  mid_serialize :: "u64 list \<Rightarrow> 'b list"
  mid_load :: "'b list \<Rightarrow> (u64 list \<times> 'b list) option"
  bv_serialize :: "bool list \<Rightarrow> 'b list"
  bv_load :: "'b list \<Rightarrow> (bool list \<times> 'b list) option"
  sel_serialize :: "sel_support \<Rightarrow> 'b list"
  sel_load :: "'b list \<Rightarrow> bool list \<Rightarrow> (sel_support \<times> 'b list) option"

text \<open>
  The contract of the library serializers: what one writes, its loader reads back, and
  leaves the rest of the stream. A select support written for a vector and loaded for the
  same vector answers for that vector.
\<close>

definition io_round_trips :: "'b sdsl_io \<Rightarrow> bool" where
  "io_round_trips io \<longleftrightarrow>
     (\<forall>n rest. n < 2 ^ 64 \<longrightarrow> read_member io (write_member io n @ rest) = Some (n, rest)) \<and>
     (\<forall>v rest. iv_load io (iv_serialize io v @ rest) = Some (v, rest)) \<and>
     (\<forall>v rest. low_load io (low_serialize io v @ rest) = Some (v, rest)) \<and>
     (\<forall>v rest. mid_load io (mid_serialize io v @ rest) = Some (v, rest)) \<and>
     (\<forall>v rest. bv_load io (bv_serialize io v @ rest) = Some (v, rest)) \<and>
     (\<forall>c rest. sel_load io (sel_serialize io (Sel c) @ rest) c = Some (Sel c, rest))"

text \<open>
  \<open>serialize\<close> appends to the stream \<open>out\<close> and returns the number of bytes written.
  \<open>load\<close> reads from the stream and assigns all members; it returns the loaded index and
  the rest of the stream, or \<open>None\<close> when a member loader fails.
\<close>

definition simple_size :: "simple_index \<Rightarrow> nat" where
  "simple_size idx = m_n idx"

definition simple_serialize :: "'b sdsl_io \<Rightarrow> simple_index \<Rightarrow> 'b list \<Rightarrow> 'b list \<times> nat" where
  "simple_serialize io idx out =
     (let b1 = write_member io (m_n idx);
          b2 = iv_serialize io (m_entries idx);
          b3 = bv_serialize io (m_C idx);
          b4 = sel_serialize io (m_C_sel idx)
      in (out @ b1 @ b2 @ b3 @ b4, length b1 + length b2 + length b3 + length b4))"

definition simple_load :: "'b sdsl_io \<Rightarrow> 'b list \<Rightarrow> (simple_index \<times> 'b list) option" where
  "simple_load io inp =
     (case read_member io inp of
        None \<Rightarrow> None
      | Some (n, in1) \<Rightarrow>
          (case iv_load io in1 of
             None \<Rightarrow> None
           | Some (es, in2) \<Rightarrow>
               (case bv_load io in2 of
                  None \<Rightarrow> None
                | Some (c, in3) \<Rightarrow>
                    (case sel_load io in3 c of
                       None \<Rightarrow> None
                     | Some (s, in4) \<Rightarrow>
                         Some (\<lparr>m_n = n, m_entries = es, m_C = c, m_C_sel = s\<rparr>, in4)))))"

definition triangle_size :: "triangle_index \<Rightarrow> nat" where
  "triangle_size idx = t_n idx"

definition triangle_serialize :: "'b sdsl_io \<Rightarrow> triangle_index \<Rightarrow> 'b list \<Rightarrow> 'b list \<times> nat" where
  "triangle_serialize io idx out =
     (let b1 = write_member io (t_n idx);
          b2 = low_serialize io (m_low_entries idx);
          b3 = mid_serialize io (m_mid_entries idx);
          b4 = bv_serialize io (t_C idx);
          b5 = sel_serialize io (t_C_sel idx)
      in (out @ b1 @ b2 @ b3 @ b4 @ b5,
          length b1 + length b2 + length b3 + length b4 + length b5))"

definition triangle_load :: "'b sdsl_io \<Rightarrow> 'b list \<Rightarrow> (triangle_index \<times> 'b list) option" where
  "triangle_load io inp =
     (case read_member io inp of
        None \<Rightarrow> None
      | Some (n, in1) \<Rightarrow>
          (case low_load io in1 of
             None \<Rightarrow> None
           | Some (ls, in2) \<Rightarrow>
               (case mid_load io in2 of
                  None \<Rightarrow> None
                | Some (ms, in3) \<Rightarrow>
                    (case bv_load io in3 of
                       None \<Rightarrow> None
                     | Some (c, in4) \<Rightarrow>
                         (case sel_load io in4 c of
                            None \<Rightarrow> None
                          | Some (s, in5) \<Rightarrow>
                              Some (\<lparr>t_n = n, m_low_entries = ls, m_mid_entries = ms, t_C = c,
                                     t_C_sel = s\<rparr>, in5))))))"

lemma simple_round_trip:
  assumes io: "io_round_trips io" and n: "m_n idx < 2 ^ 64" and s: "m_C_sel idx = Sel (m_C idx)"
  shows "simple_load io (fst (simple_serialize io idx []) @ rest) = Some (idx, rest)"
proof -
  from io have r: "read_member io (write_member io (m_n idx) @ t) = Some (m_n idx, t)"
    "iv_load io (iv_serialize io v @ t) = Some (v, t)"
    "bv_load io (bv_serialize io c @ t) = Some (c, t)"
    "sel_load io (sel_serialize io (Sel c) @ t) c = Some (Sel c, t)" for t v c
    using n unfolding io_round_trips_def by blast+
  show ?thesis
    by (simp add: simple_serialize_def simple_load_def Let_def r s)
qed

lemma triangle_round_trip:
  assumes io: "io_round_trips io" and n: "t_n idx < 2 ^ 64" and s: "t_C_sel idx = Sel (t_C idx)"
  shows "triangle_load io (fst (triangle_serialize io idx []) @ rest) = Some (idx, rest)"
proof -
  from io have r: "read_member io (write_member io (t_n idx) @ t) = Some (t_n idx, t)"
    "low_load io (low_serialize io l @ t) = Some (l, t)"
    "mid_load io (mid_serialize io v @ t) = Some (v, t)"
    "bv_load io (bv_serialize io c @ t) = Some (c, t)"
    "sel_load io (sel_serialize io (Sel c) @ t) c = Some (Sel c, t)" for t v c l
    using n unfolding io_round_trips_def by blast+
  show ?thesis
    by (simp add: triangle_serialize_def triangle_load_def Let_def r s)
qed


text \<open>
  C9. For every constructed index, loading the stream that \<open>serialize\<close> produced yields an
  index with the same \<open>size()\<close> and the same \<open>match\<close> output for every query, bound and
  flag; nothing of the stream written is left over. \<open>serialize\<close> writes \<open>n\<close>, the packed
  entries (triangle: low entries, then mid entries), \<open>C\<close> and the select support, in this
  order; \<open>load\<close> reads in the same order and binds the select support to the \<open>C\<close> it has
  just loaded.
\<close>

theorem serialize_load_round_trip:
  assumes "io_round_trips io" and "length xs + 2 ^ splitter_bits cfg < 2 ^ 64"
  shows "(simple_wf cfg \<longrightarrow>
           (\<exists>idx idx'. simple_build cfg xs = Inr idx \<and>
              fst (simple_serialize io idx [])
                = write_member io (m_n idx) @ iv_serialize io (m_entries idx)
                  @ bv_serialize io (m_C idx) @ sel_serialize io (m_C_sel idx) \<and>
              snd (simple_serialize io idx []) = length (fst (simple_serialize io idx [])) \<and>
              simple_load io (fst (simple_serialize io idx []) @ rest) = Some (idx', rest) \<and>
              simple_size idx' = simple_size idx \<and>
              m_C_sel idx' = Sel (m_C idx') \<and>
              (\<forall>q k f. simple_match cfg idx' q k f = simple_match cfg idx q k f))) \<and>
         (tri_wf cfg \<longrightarrow>
           (\<exists>idx idx'. triangle_build cfg xs = Inr idx \<and>
              fst (triangle_serialize io idx [])
                = write_member io (t_n idx) @ low_serialize io (m_low_entries idx)
                  @ mid_serialize io (m_mid_entries idx) @ bv_serialize io (t_C idx)
                  @ sel_serialize io (t_C_sel idx) \<and>
              snd (triangle_serialize io idx []) = length (fst (triangle_serialize io idx [])) \<and>
              triangle_load io (fst (triangle_serialize io idx []) @ rest) = Some (idx', rest) \<and>
              triangle_size idx' = triangle_size idx \<and>
              t_C_sel idx' = Sel (t_C idx') \<and>
              (\<forall>base q k f. triangle_match cfg base idx' q k f = triangle_match cfg base idx q k f)))"
proof (intro conjI impI)
  assume wf: "simple_wf cfg"
  obtain idx where b: "simple_build cfg xs = Inr idx"
    using simple_build_eq[OF wf assms(2)] by simp
  then have s: "m_C_sel idx = Sel (m_C idx)" and n: "m_n idx < 2 ^ 64"
    unfolding simple_build_eq[OF wf assms(2)] using assms(2) by auto
  have "simple_load io (fst (simple_serialize io idx []) @ rest) = Some (idx, rest)"
    using assms(1) n s by (rule simple_round_trip)
  with b s show "\<exists>idx idx'. simple_build cfg xs = Inr idx \<and>
      fst (simple_serialize io idx [])
        = write_member io (m_n idx) @ iv_serialize io (m_entries idx)
          @ bv_serialize io (m_C idx) @ sel_serialize io (m_C_sel idx) \<and>
      snd (simple_serialize io idx []) = length (fst (simple_serialize io idx [])) \<and>
      simple_load io (fst (simple_serialize io idx []) @ rest) = Some (idx', rest) \<and>
      simple_size idx' = simple_size idx \<and>
      m_C_sel idx' = Sel (m_C idx') \<and>
      (\<forall>q k f. simple_match cfg idx' q k f = simple_match cfg idx q k f)"
    by (intro exI[of _ idx]) (simp add: simple_serialize_def Let_def)
next
  assume wf: "tri_wf cfg"
  obtain idx where b: "triangle_build cfg xs = Inr idx"
    using triangle_build_eq[OF wf assms(2)] by simp
  then have s: "t_C_sel idx = Sel (t_C idx)" and n: "t_n idx < 2 ^ 64"
    unfolding triangle_build_eq[OF wf assms(2)] using assms(2) by auto
  have "triangle_load io (fst (triangle_serialize io idx []) @ rest) = Some (idx, rest)"
    using assms(1) n s by (rule triangle_round_trip)
  with b s show "\<exists>idx idx'. triangle_build cfg xs = Inr idx \<and>
      fst (triangle_serialize io idx [])
        = write_member io (t_n idx) @ low_serialize io (m_low_entries idx)
          @ mid_serialize io (m_mid_entries idx) @ bv_serialize io (t_C idx)
          @ sel_serialize io (t_C_sel idx) \<and>
      snd (triangle_serialize io idx []) = length (fst (triangle_serialize io idx [])) \<and>
      triangle_load io (fst (triangle_serialize io idx []) @ rest) = Some (idx', rest) \<and>
      triangle_size idx' = triangle_size idx \<and>
      t_C_sel idx' = Sel (t_C idx') \<and>
      (\<forall>base q k f. triangle_match cfg base idx' q k f = triangle_match cfg base idx q k f)"
    by (intro exI[of _ idx]) (simp add: triangle_serialize_def Let_def)
qed

text \<open>
  An instance of the serializers, for a stream of naturals: a number is one element, a
  vector is its length followed by its elements, and the select support writes nothing.
\<close>

definition read_nat :: "nat list \<Rightarrow> (nat \<times> nat list) option" where
  "read_nat s = (case s of [] \<Rightarrow> None | n # r \<Rightarrow> Some (n, r))"

definition write_vec :: "('a \<Rightarrow> nat) \<Rightarrow> 'a list \<Rightarrow> nat list" where
  "write_vec enc v = length v # map enc v"

definition read_vec :: "(nat \<Rightarrow> 'a) \<Rightarrow> nat list \<Rightarrow> ('a list \<times> nat list) option" where
  "read_vec dec s =
     (case s of
        [] \<Rightarrow> None
      | n # r \<Rightarrow> if n \<le> length r then Some (map dec (take n r), drop n r) else None)"

definition nat_io :: "nat sdsl_io" where
  "nat_io =
     \<lparr>write_member = (\<lambda>n. [n]), read_member = read_nat,
      iv_serialize = write_vec unat, iv_load = read_vec word_of_nat,
      low_serialize = write_vec unat, low_load = read_vec word_of_nat,
      mid_serialize = write_vec unat, mid_load = read_vec word_of_nat,
      bv_serialize = write_vec (\<lambda>b. if b then 1 else 0), bv_load = read_vec (\<lambda>n. n = 1),
      sel_serialize = (\<lambda>s. []), sel_load = (\<lambda>s c. Some (Sel c, s))\<rparr>"

lemma read_write_vec:
  "(\<And>x. dec (enc x) = x) \<Longrightarrow> read_vec dec (write_vec enc v @ rest) = Some (v, rest)"
  by (simp add: read_vec_def write_vec_def comp_def)

lemma nat_io_round_trips: "io_round_trips nat_io"
  by (simp add: io_round_trips_def nat_io_def read_nat_def read_write_vec)

theorem serialize_load_round_trip_witness:
  "(\<exists>idx idx'. simple_build example_family [3, 5, 3] = Inr idx \<and>
      simple_load nat_io (fst (simple_serialize nat_io idx []) @ []) = Some (idx', []) \<and>
      simple_size idx' = simple_size idx \<and>
      simple_match example_family idx' 1 3 False = simple_match example_family idx 1 3 False) \<and>
   (\<exists>idx idx'. triangle_build example_family [3, 5, 3] = Inr idx \<and>
      triangle_load nat_io (fst (triangle_serialize nat_io idx []) @ []) = Some (idx', []) \<and>
      triangle_size idx' = triangle_size idx \<and>
      triangle_match example_family 0 idx' 1 3 False = triangle_match example_family 0 idx 1 3 False)"
proof -
  have h: "length [3, 5, 3 :: u64] + 2 ^ splitter_bits example_family < 2 ^ 64"
    by (simp add: example_family_def)
  note t = serialize_load_round_trip[OF nat_io_round_trips h, of "[]"]
  from t example_family_ok(1)
  have "\<exists>idx idx'. simple_build example_family [3, 5, 3] = Inr idx \<and>
      simple_load nat_io (fst (simple_serialize nat_io idx []) @ []) = Some (idx', []) \<and>
      simple_size idx' = simple_size idx \<and>
      simple_match example_family idx' 1 3 False = simple_match example_family idx 1 3 False"
    by blast
  moreover from t example_family_ok(2)
  have "\<exists>idx idx'. triangle_build example_family [3, 5, 3] = Inr idx \<and>
      triangle_load nat_io (fst (triangle_serialize nat_io idx []) @ []) = Some (idx', []) \<and>
      triangle_size idx' = triangle_size idx \<and>
      triangle_match example_family 0 idx' 1 3 False = triangle_match example_family 0 idx 1 3 False"
    by blast
  ultimately show ?thesis by blast
qed

end
